theory Spec2Isabelle
  imports Main "HOL-Library.Word" "HOL-Library.AList" "HOL-Library.Product_Lexorder"
begin

section \<open>The bounded write-back cache (src/evo/evodb.h, class CEvoDB)\<close>

text \<open>
  \<^verbatim>\<open>CEvoDB<K, V>\<close> derives from \<^verbatim>\<open>CDBWrapper\<close> (the backing store) and holds
  \<^item> \<^verbatim>\<open>fifoList\<close>, a \<^verbatim>\<open>std::list<std::pair<K, V>>\<close>;
  \<^item> \<^verbatim>\<open>mapCache\<close>, an \<^verbatim>\<open>unordered_map\<close> from a key to an iterator into \<^verbatim>\<open>fifoList\<close>;
  \<^item> \<^verbatim>\<open>setEraseCache\<close>, an \<^verbatim>\<open>unordered_set<K>\<close>;
  \<^item> \<^verbatim>\<open>maxCacheSize\<close> and \<^verbatim>\<open>bFlushOnNextRead\<close>.

  A list iterator is the identity of a list node. Every node of \<open>fifoList\<close> therefore
  carries a number, its identity; \<open>emplace_back\<close> takes the next unused number from
  \<open>nextNode\<close> (the allocator). The backing store is the field \<open>store\<close>, a partial map.
\<close>

record ('k, 'v) CEvoDB =
  mapCache :: "'k \<rightharpoonup> nat"
  fifoList :: "(nat \<times> 'k \<times> 'v) list"
  nextNode :: nat
  setEraseCache :: "'k set"
  maxCacheSize :: nat
  bFlushOnNextRead :: bool
  store :: "'k \<rightharpoonup> 'v"

text \<open>The constructor: empty pending structures over a given store.\<close>

definition CEvoDB_init :: "nat \<Rightarrow> ('k \<rightharpoonup> 'v) \<Rightarrow> ('k, 'v) CEvoDB" where
  "CEvoDB_init maxCacheSizeIn st =
     \<lparr>mapCache = Map.empty, fifoList = [], nextNode = 0, setEraseCache = {},
      maxCacheSize = maxCacheSizeIn, bFlushOnNextRead = False, store = st\<rparr>"

text \<open>\<^verbatim>\<open>fifoList.erase(it)\<close> unlinks the node the iterator names.\<close>

definition list_erase :: "nat \<Rightarrow> (nat \<times> 'k \<times> 'v) list \<Rightarrow> (nat \<times> 'k \<times> 'v) list" where
  "list_erase it xs = filter (\<lambda>n. fst n \<noteq> it) xs"

text \<open>
  \<^verbatim>\<open>it->second->second\<close>: the value of the node an entry of \<open>mapCache\<close> names. An
  iterator whose node is gone would be undefined behaviour in C++; the model answers
  \<open>None\<close> there, and \<open>evodb_inv\<close> below shows that no reachable state has one.
\<close>

definition node_value :: "(nat \<times> 'k \<times> 'v) list \<Rightarrow> nat \<Rightarrow> 'v option" where
  "node_value xs it = map_option snd (map_of xs it)"

definition IsCacheFull :: "('k, 'v) CEvoDB \<Rightarrow> bool" where
  "IsCacheFull s \<longleftrightarrow>
     maxCacheSize s > 0 \<and> card (dom (mapCache s)) + card (setEraseCache s) \<ge> maxCacheSize s"

text \<open>
  The batch \<^verbatim>\<open>FlushCacheToDisk\<close> prepares: one \<^verbatim>\<open>batch.Write(key, it->second)\<close> for
  every entry of \<open>mapCache\<close>, then one \<^verbatim>\<open>batch.Erase(key)\<close> for every key of
  \<open>setEraseCache\<close>. \<open>pending_writes\<close> is the map of the first loop. \<^verbatim>\<open>WriteBatch\<close>
  (of \<^verbatim>\<open>CDBWrapper\<close>, outside this file) applies the operations in their order, all or
  none: the writes, then the erases.
\<close>

definition pending_writes :: "('k, 'v) CEvoDB \<Rightarrow> ('k \<rightharpoonup> 'v)" where
  "pending_writes s =
     (\<lambda>key. case mapCache s key of None \<Rightarrow> None | Some it \<Rightarrow> node_value (fifoList s) it)"

definition WriteBatch :: "('k \<rightharpoonup> 'v) \<Rightarrow> 'k set \<Rightarrow> ('k \<rightharpoonup> 'v) \<Rightarrow> ('k \<rightharpoonup> 'v)" where
  "WriteBatch writes erases st = (st ++ writes) |` (- erases)"

text \<open>
  \<^verbatim>\<open>FlushCacheToDisk\<close>. Whether the store engine accepts the batch is an input of the
  model: \<open>res\<close> is what \<^verbatim>\<open>WriteBatch(batch, true)\<close> returns.
\<close>

definition FlushCacheToDisk :: "bool \<Rightarrow> ('k, 'v) CEvoDB \<Rightarrow> bool \<times> ('k, 'v) CEvoDB" where
  "FlushCacheToDisk res s =
     (if mapCache s = Map.empty \<and> setEraseCache s = {} then (True, s)
      else if res then
        (True, s\<lparr>store := WriteBatch (pending_writes s) (setEraseCache s) (store s),
                 mapCache := Map.empty, fifoList := [], setEraseCache := {}\<rparr>)
      else (False, s))"

text \<open>
  \<^verbatim>\<open>ReadCache\<close>: the result \<open>Some v\<close> is \<^verbatim>\<open>true\<close> with \<^verbatim>\<open>value = v\<close>, \<open>None\<close> is
  \<^verbatim>\<open>false\<close>. The flush it may trigger is not checked for success.
\<close>

definition flush_before_read :: "bool \<Rightarrow> ('k, 'v) CEvoDB \<Rightarrow> ('k, 'v) CEvoDB" where
  "flush_before_read res s =
     (if bFlushOnNextRead s then snd (FlushCacheToDisk res (s\<lparr>bFlushOnNextRead := False\<rparr>))
      else s)"

definition ReadCache :: "bool \<Rightarrow> 'k \<Rightarrow> ('k, 'v) CEvoDB \<Rightarrow> 'v option \<times> ('k, 'v) CEvoDB" where
  "ReadCache res key s =
     (let s1 = flush_before_read res s in
      case mapCache s1 key of
        Some it \<Rightarrow> (node_value (fifoList s1) it, s1)
      | None \<Rightarrow> (store s1 key, s1))"

definition ExistsCache :: "bool \<Rightarrow> 'k \<Rightarrow> ('k, 'v) CEvoDB \<Rightarrow> bool \<times> ('k, 'v) CEvoDB" where
  "ExistsCache res key s =
     (let s1 = flush_before_read res s in
      (mapCache s1 key \<noteq> None \<or> store s1 key \<noteq> None, s1))"

text \<open>
  \<^verbatim>\<open>WriteCache\<close> in its two parts: the upsert (drop the old node of the key, append a
  new one, record its iterator, drop a pending erase of the key) and the eviction
  (\<^verbatim>\<open>if (maxCacheSize > 0 && mapCache.size() > maxCacheSize)\<close>: pop the front node and
  erase its key from the map). The upsert leaves \<open>fifoList\<close> non-empty, so
  \<^verbatim>\<open>fifoList.front()\<close> is defined; the model keeps the state on an empty list.
\<close>

definition erase_pending_write :: "'k \<Rightarrow> ('k, 'v) CEvoDB \<Rightarrow> ('k, 'v) CEvoDB" where
  "erase_pending_write key s =
     (case mapCache s key of
        Some it \<Rightarrow> s\<lparr>fifoList := list_erase it (fifoList s), mapCache := (mapCache s)(key := None)\<rparr>
      | None \<Rightarrow> s)"

definition WriteCache_upsert :: "'k \<Rightarrow> 'v \<Rightarrow> ('k, 'v) CEvoDB \<Rightarrow> ('k, 'v) CEvoDB" where
  "WriteCache_upsert key val s =
     (let s1 = erase_pending_write key s; n = nextNode s1 in
      s1\<lparr>fifoList := fifoList s1 @ [(n, key, val)],
         mapCache := (mapCache s1)(key \<mapsto> n),
         nextNode := Suc n,
         setEraseCache := setEraseCache s1 - {key}\<rparr>)"

definition WriteCache_evict :: "('k, 'v) CEvoDB \<Rightarrow> ('k, 'v) CEvoDB" where
  "WriteCache_evict s =
     (if maxCacheSize s > 0 \<and> card (dom (mapCache s)) > maxCacheSize s then
        (case fifoList s of
           [] \<Rightarrow> s
         | oldest # rest \<Rightarrow>
             s\<lparr>fifoList := rest, mapCache := (mapCache s)(fst (snd oldest) := None)\<rparr>)
      else s)"

definition WriteCache :: "'k \<Rightarrow> 'v \<Rightarrow> ('k, 'v) CEvoDB \<Rightarrow> ('k, 'v) CEvoDB" where
  "WriteCache key val s = WriteCache_evict (WriteCache_upsert key val s)"

definition EraseCache :: "'k \<Rightarrow> ('k, 'v) CEvoDB \<Rightarrow> ('k, 'v) CEvoDB" where
  "EraseCache key s =
     (let s1 = erase_pending_write key (s\<lparr>bFlushOnNextRead := True\<rparr>) in
      s1\<lparr>setEraseCache := insert key (setEraseCache s1)\<rparr>)"

text \<open>Sequences of operations on the cache, each flush with the answer of the store.\<close>

datatype ('k, 'v) cache_op =
    OpWrite 'k 'v
  | OpErase 'k
  | OpFlush bool
  | OpRead bool 'k
  | OpExists bool 'k

fun apply_cache_op :: "('k, 'v) CEvoDB \<Rightarrow> ('k, 'v) cache_op \<Rightarrow> ('k, 'v) CEvoDB" where
  "apply_cache_op s (OpWrite key val) = WriteCache key val s"
| "apply_cache_op s (OpErase key) = EraseCache key s"
| "apply_cache_op s (OpFlush res) = snd (FlushCacheToDisk res s)"
| "apply_cache_op s (OpRead res key) = snd (ReadCache res key s)"
| "apply_cache_op s (OpExists res key) = snd (ExistsCache res key s)"

definition run_cache_ops :: "('k, 'v) CEvoDB \<Rightarrow> ('k, 'v) cache_op list \<Rightarrow> ('k, 'v) CEvoDB" where
  "run_cache_ops s ops = foldl apply_cache_op s ops"

text \<open>
  The representation invariant: node identities are distinct and below the allocator,
  \<open>mapCache\<close> holds exactly the iterators of the nodes of \<open>fifoList\<close>, each under the
  key of its node, and no key is pending both as a write and as an erase.
\<close>

definition evodb_inv :: "('k, 'v) CEvoDB \<Rightarrow> bool" where
  "evodb_inv s \<longleftrightarrow>
     distinct (map fst (fifoList s)) \<and>
     (\<forall>n \<in> set (fifoList s). fst n < nextNode s) \<and>
     (\<forall>key it. mapCache s key = Some it \<longleftrightarrow> (\<exists>v. (it, key, v) \<in> set (fifoList s))) \<and>
     dom (mapCache s) \<inter> setEraseCache s = {} \<and>
     finite (setEraseCache s)"

definition c3_state :: "(nat, nat) CEvoDB" where
  "c3_state = run_cache_ops (CEvoDB_init 0 [2 \<mapsto> 20]) [OpWrite 1 10, OpErase 2]"

definition c4_state :: "(nat, nat) CEvoDB" where
  "c4_state = run_cache_ops (CEvoDB_init 2 Map.empty) [OpErase 2, OpErase 3, OpWrite 1 10]"

definition c4_state2 :: "(nat, nat) CEvoDB" where
  "c4_state2 = run_cache_ops (CEvoDB_init 2 Map.empty) [OpWrite 1 10, OpWrite 2 20]"

definition c2_state :: "(nat, nat) CEvoDB" where
  "c2_state = EraseCache 1 (CEvoDB_init 10 [1 \<mapsto> 7])"

section \<open>The recovered-signature store (src/llmq/quorums_signing.cpp, CRecoveredSigsDb)\<close>

type_synonym uint256 = "256 word"
type_synonym uint32 = "32 word"
type_synonym int64 = "64 word"
type_synonym NodeId = int

text \<open>
  \<^verbatim>\<open>CRecoveredSig\<close> (with the fields of \<^verbatim>\<open>CSigBase\<close>). The field \<open>hash\<close> is the in-memory
  content hash that \<^verbatim>\<open>UpdateHash\<close> sets on construction and on deserialisation, and that
  \<^verbatim>\<open>GetHash\<close> returns. The signature type is a parameter.
\<close>

record 'sig CRecoveredSig =
  quorumHash :: uint256
  id' :: uint256
  msgHash :: uint256
  sig :: 'sig
  hash :: uint256

definition GetHash :: "'sig CRecoveredSig \<Rightarrow> uint256" where
  "GetHash recSig = hash recSig"

text \<open>
  \<^verbatim>\<open>CLLMQUtils::BuildSignHash(quorumHash, id, msgHash)\<close> is declared in quorums\_utils.h and
  defined elsewhere: every function that uses it takes it as the parameter \<open>bsh\<close>. The
  template \<^verbatim>\<open>BuildSignHash(const T& s)\<close> is in the header.
\<close>

definition BuildSignHash ::
  "(uint256 \<Rightarrow> uint256 \<Rightarrow> uint256 \<Rightarrow> uint256) \<Rightarrow> 'sig CRecoveredSig \<Rightarrow> uint256" where
  "BuildSignHash bsh s = bsh (quorumHash s) (id' s) (msgHash s)"

text \<open>
  The keys are tuples that start with a tag: \<^verbatim>\<open>("rs_r", id)\<close>, \<^verbatim>\<open>("rs_r", id, msgHash)\<close>,
  \<^verbatim>\<open>("rs_h", hash)\<close>, \<^verbatim>\<open>("rs_s", signHash)\<close>, \<^verbatim>\<open>("rs_t", htobe32(time), id)\<close>,
  \<^verbatim>\<open>("rs_v", id)\<close> and \<^verbatim>\<open>("rs_vt", htobe32(time), id)\<close>. The time of a key is stored
  big-endian so that the byte order of the keys is the order of the times; the model keeps
  the time itself in the key and orders the keys by it (\<^verbatim>\<open>be32toh\<close> of the component).
  The values are a recovered signature, a \<^verbatim>\<open>uint32_t\<close> time, a \<^verbatim>\<open>uint256\<close> or the byte
  \<^verbatim>\<open>(uint8_t)1\<close>.
\<close>

datatype dbkey =
    K_rs_r uint256
  | K_rs_r_msg uint256 uint256
  | K_rs_h uint256
  | K_rs_s uint256
  | K_rs_t uint32 uint256
  | K_rs_v uint256
  | K_rs_vt uint32 uint256

datatype 'sig dbval =
    V_recSig "'sig CRecoveredSig"
  | V_uint32 uint32
  | V_uint256 uint256
  | V_uint8 "8 word"

text \<open>
  Modelled from the spec: the store engine (\<^verbatim>\<open>CDBWrapper\<close>, \<^verbatim>\<open>CDBBatch\<close>, \<^verbatim>\<open>CDBIterator\<close>;
  dbwrapper.h is not part of the sources at hand) with \<open>get\<close>, \<open>put\<close>, \<open>delete\<close>, ordered
  iteration and an atomic batch of puts and deletes. The store is an association list;
  a batch is the list of its operations, applied in order. The results of
  \<^verbatim>\<open>db->WriteBatch\<close> are discarded by \<^verbatim>\<open>CRecoveredSigsDb\<close>; the batch is applied.
\<close>

type_synonym 'sig kvstore = "(dbkey \<times> 'sig dbval) list"

datatype 'sig batch_op = BWrite dbkey "'sig dbval" | BErase dbkey

definition db_Exists :: "'sig kvstore \<Rightarrow> dbkey \<Rightarrow> bool" where
  "db_Exists kv k \<longleftrightarrow> map_of kv k \<noteq> None"

fun apply_batch_op :: "'sig kvstore \<Rightarrow> 'sig batch_op \<Rightarrow> 'sig kvstore" where
  "apply_batch_op kv (BWrite k v) = AList.update k v kv"
| "apply_batch_op kv (BErase k) = AList.delete k kv"

definition db_WriteBatch :: "'sig batch_op list \<Rightarrow> 'sig kvstore \<Rightarrow> 'sig kvstore" where
  "db_WriteBatch batch kv = foldl apply_batch_op kv batch"

text \<open>Typed reads: \<^verbatim>\<open>db->Read(k, ret)\<close> fails on a missing key or a value of another type.\<close>

definition db_Read_recSig :: "'sig kvstore \<Rightarrow> dbkey \<Rightarrow> 'sig CRecoveredSig option" where
  "db_Read_recSig kv k = (case map_of kv k of Some (V_recSig r) \<Rightarrow> Some r | _ \<Rightarrow> None)"

definition db_Read_uint32 :: "'sig kvstore \<Rightarrow> dbkey \<Rightarrow> uint32 option" where
  "db_Read_uint32 kv k = (case map_of kv k of Some (V_uint32 t) \<Rightarrow> Some t | _ \<Rightarrow> None)"

definition db_Read_uint256 :: "'sig kvstore \<Rightarrow> dbkey \<Rightarrow> uint256 option" where
  "db_Read_uint256 kv k = (case map_of kv k of Some (V_uint256 h) \<Rightarrow> Some h | _ \<Rightarrow> None)"

text \<open>
  The iterator of the cleanup: \<^verbatim>\<open>Seek(("rs_t", 0, uint256()))\<close>, then \<^verbatim>\<open>Next\<close> while the
  key has the tag \<^verbatim>\<open>"rs_t"\<close>. It visits the \<^verbatim>\<open>rs_t\<close> keys in ascending order of (time, id).
  \<open>rs_vt_keys\<close> is the same for the votes.
\<close>

fun rs_t_key :: "dbkey \<Rightarrow> (uint32 \<times> uint256) list" where
  "rs_t_key (K_rs_t t i) = [(t, i)]"
| "rs_t_key _ = []"

fun rs_vt_key :: "dbkey \<Rightarrow> (uint32 \<times> uint256) list" where
  "rs_vt_key (K_rs_vt t i) = [(t, i)]"
| "rs_vt_key _ = []"

definition rs_t_keys :: "'sig kvstore \<Rightarrow> (uint32 \<times> uint256) list" where
  "rs_t_keys kv = sort (remdups (concat (map (rs_t_key \<circ> fst) kv)))"

definition rs_vt_keys :: "'sig kvstore \<Rightarrow> (uint32 \<times> uint256) list" where
  "rs_vt_keys kv = sort (remdups (concat (map (rs_vt_key \<circ> fst) kv)))"

text \<open>
  Modelled from the spec: the three caches (\<^verbatim>\<open>unordered_lru_cache\<close>, not part of the
  sources at hand) that front the boolean existence checks, as partial maps with \<open>get\<close>,
  \<open>insert\<close> and \<open>erase\<close>. Dropping the least recently used entries only makes a check
  fall through to the store and is not modelled.
\<close>

record 'sig CRecoveredSigsDb =
  db :: "'sig kvstore"
  hasSigForIdCache :: "uint256 \<rightharpoonup> bool"
  hasSigForSessionCache :: "uint256 \<rightharpoonup> bool"
  hasSigForHashCache :: "uint256 \<rightharpoonup> bool"

definition HasRecoveredSig :: "uint256 \<Rightarrow> uint256 \<Rightarrow> 'sig CRecoveredSigsDb \<Rightarrow> bool" where
  "HasRecoveredSig i m d = db_Exists (db d) (K_rs_r_msg i m)"

definition HasRecoveredSigForId ::
  "uint256 \<Rightarrow> 'sig CRecoveredSigsDb \<Rightarrow> bool \<times> 'sig CRecoveredSigsDb" where
  "HasRecoveredSigForId i d =
     (case hasSigForIdCache d i of
        Some ret \<Rightarrow> (ret, d)
      | None \<Rightarrow>
          (let ret = db_Exists (db d) (K_rs_r i) in
           (ret, d\<lparr>hasSigForIdCache := (hasSigForIdCache d)(i \<mapsto> ret)\<rparr>)))"

definition HasRecoveredSigForSession ::
  "uint256 \<Rightarrow> 'sig CRecoveredSigsDb \<Rightarrow> bool \<times> 'sig CRecoveredSigsDb" where
  "HasRecoveredSigForSession signHash d =
     (case hasSigForSessionCache d signHash of
        Some ret \<Rightarrow> (ret, d)
      | None \<Rightarrow>
          (let ret = db_Exists (db d) (K_rs_s signHash) in
           (ret, d\<lparr>hasSigForSessionCache := (hasSigForSessionCache d)(signHash \<mapsto> ret)\<rparr>)))"

definition HasRecoveredSigForHash ::
  "uint256 \<Rightarrow> 'sig CRecoveredSigsDb \<Rightarrow> bool \<times> 'sig CRecoveredSigsDb" where
  "HasRecoveredSigForHash h d =
     (case hasSigForHashCache d h of
        Some ret \<Rightarrow> (ret, d)
      | None \<Rightarrow>
          (let ret = db_Exists (db d) (K_rs_h h) in
           (ret, d\<lparr>hasSigForHashCache := (hasSigForHashCache d)(h \<mapsto> ret)\<rparr>)))"

definition ReadRecoveredSig :: "uint256 \<Rightarrow> 'sig CRecoveredSigsDb \<Rightarrow> 'sig CRecoveredSig option" where
  "ReadRecoveredSig i d = db_Read_recSig (db d) (K_rs_r i)"

definition GetRecoveredSigByHash ::
  "uint256 \<Rightarrow> 'sig CRecoveredSigsDb \<Rightarrow> 'sig CRecoveredSig option" where
  "GetRecoveredSigByHash h d =
     (case db_Read_uint256 (db d) (K_rs_h h) of
        None \<Rightarrow> None
      | Some k2 \<Rightarrow> ReadRecoveredSig k2 d)"

definition GetRecoveredSigById ::
  "uint256 \<Rightarrow> 'sig CRecoveredSigsDb \<Rightarrow> 'sig CRecoveredSig option" where
  "GetRecoveredSigById i d = ReadRecoveredSig i d"

text \<open>
  \<^verbatim>\<open>WriteRecoveredSig\<close>. \<open>now\<close> is \<^verbatim>\<open>TicksSinceEpoch<seconds>(GetAdjustedTime())\<close>, an
  \<^verbatim>\<open>int64_t\<close>; \<^verbatim>\<open>curTime\<close> is its conversion to \<^verbatim>\<open>uint32_t\<close>.
\<close>

definition WriteRecoveredSig ::
  "(uint256 \<Rightarrow> uint256 \<Rightarrow> uint256 \<Rightarrow> uint256) \<Rightarrow> int64 \<Rightarrow> 'sig CRecoveredSig \<Rightarrow>
   'sig CRecoveredSigsDb \<Rightarrow> 'sig CRecoveredSigsDb" where
  "WriteRecoveredSig bsh now recSig d =
     (let curTime = (ucast now :: uint32);
          k1 = K_rs_r (id' recSig);
          k2 = K_rs_r_msg (id' recSig) (msgHash recSig);
          k3 = K_rs_h (GetHash recSig);
          signHash = BuildSignHash bsh recSig;
          k4 = K_rs_s signHash;
          k5 = K_rs_t curTime (id' recSig);
          batch = [BWrite k1 (V_recSig recSig), BWrite k2 (V_uint32 curTime),
                   BWrite k3 (V_uint256 (id' recSig)), BWrite k4 (V_uint8 1),
                   BWrite k5 (V_uint8 1)]
      in d\<lparr>db := db_WriteBatch batch (db d),
           hasSigForIdCache := (hasSigForIdCache d)(id' recSig \<mapsto> True),
           hasSigForSessionCache := (hasSigForSessionCache d)(signHash \<mapsto> True),
           hasSigForHashCache := (hasSigForHashCache d)(GetHash recSig \<mapsto> True)\<rparr>)"

text \<open>
  \<^verbatim>\<open>RemoveRecoveredSig(batch, id, deleteHashKey, deleteTimeKey)\<close> adds erasures to a batch
  and erases cache entries at once. It reads the store, not the batch.
\<close>

definition RemoveRecoveredSig_batch ::
  "(uint256 \<Rightarrow> uint256 \<Rightarrow> uint256 \<Rightarrow> uint256) \<Rightarrow> uint256 \<Rightarrow> bool \<Rightarrow> bool \<Rightarrow>
   'sig batch_op list \<times> 'sig CRecoveredSigsDb \<Rightarrow> 'sig batch_op list \<times> 'sig CRecoveredSigsDb" where
  "RemoveRecoveredSig_batch bsh i deleteHashKey deleteTimeKey bd =
     (case ReadRecoveredSig i (snd bd) of
        None \<Rightarrow> bd
      | Some recSig \<Rightarrow>
          (let batch = fst bd; d = snd bd;
               signHash = BuildSignHash bsh recSig;
               k1 = K_rs_r (id' recSig);
               k2 = K_rs_r_msg (id' recSig) (msgHash recSig);
               k3 = K_rs_h (GetHash recSig);
               k4 = K_rs_s signHash;
               batch1 = batch @ [BErase k1, BErase k2] @
                        (if deleteHashKey then [BErase k3] else []) @ [BErase k4];
               batch2 = (if deleteTimeKey then
                           (case db_Read_uint32 (db d) k2 of
                              Some writeTime \<Rightarrow> batch1 @ [BErase (K_rs_t writeTime (id' recSig))]
                            | None \<Rightarrow> batch1)
                         else batch1);
               d1 = d\<lparr>hasSigForIdCache := (hasSigForIdCache d)(id' recSig := None),
                      hasSigForSessionCache := (hasSigForSessionCache d)(signHash := None)\<rparr>;
               d2 = (if deleteHashKey
                     then d1\<lparr>hasSigForHashCache := (hasSigForHashCache d1)(GetHash recSig := None)\<rparr>
                     else d1)
           in (batch2, d2)))"

definition RemoveRecoveredSig ::
  "(uint256 \<Rightarrow> uint256 \<Rightarrow> uint256 \<Rightarrow> uint256) \<Rightarrow> uint256 \<Rightarrow>
   'sig CRecoveredSigsDb \<Rightarrow> 'sig CRecoveredSigsDb" where
  "RemoveRecoveredSig bsh i d =
     (let (batch, d1) = RemoveRecoveredSig_batch bsh i True True ([], d)
      in d1\<lparr>db := db_WriteBatch batch (db d1)\<rparr>)"

definition TruncateRecoveredSig ::
  "(uint256 \<Rightarrow> uint256 \<Rightarrow> uint256 \<Rightarrow> uint256) \<Rightarrow> uint256 \<Rightarrow>
   'sig CRecoveredSigsDb \<Rightarrow> 'sig CRecoveredSigsDb" where
  "TruncateRecoveredSig bsh i d =
     (let (batch, d1) = RemoveRecoveredSig_batch bsh i False False ([], d)
      in d1\<lparr>db := db_WriteBatch batch (db d1)\<rparr>)"

text \<open>
  \<^verbatim>\<open>CleanupOldRecoveredSigs(maxAge)\<close>. \<^verbatim>\<open>endTime\<close> is the \<^verbatim>\<open>int64_t\<close> difference
  \<open>now - maxAge\<close> converted to \<^verbatim>\<open>uint32_t\<close>. The scan stops at the first key whose time is
  not below \<^verbatim>\<open>endTime\<close>. The removal loop writes the batch out and clears it whenever
  \<^verbatim>\<open>batch.SizeEstimate()\<close> reaches \<open>2^24\<close>; the estimate of the engine is the parameter
  \<open>est\<close>.
\<close>

definition cleanup_endTime :: "int64 \<Rightarrow> int64 \<Rightarrow> uint32" where
  "cleanup_endTime now maxAge = ucast (now - maxAge)"

fun cleanup_remove_loop ::
  "(uint256 \<Rightarrow> uint256 \<Rightarrow> uint256 \<Rightarrow> uint256) \<Rightarrow> ('sig batch_op list \<Rightarrow> nat) \<Rightarrow> uint256 list \<Rightarrow>
   'sig batch_op list \<times> 'sig CRecoveredSigsDb \<Rightarrow> 'sig batch_op list \<times> 'sig CRecoveredSigsDb" where
  "cleanup_remove_loop bsh est [] bd = bd"
| "cleanup_remove_loop bsh est (e # es) bd =
     (let bd1 = RemoveRecoveredSig_batch bsh e True False bd in
      if est (fst bd1) \<ge> 2 ^ 24
      then cleanup_remove_loop bsh est es ([], (snd bd1)\<lparr>db := db_WriteBatch (fst bd1) (db (snd bd1))\<rparr>)
      else cleanup_remove_loop bsh est es bd1)"

definition CleanupOldRecoveredSigs ::
  "(uint256 \<Rightarrow> uint256 \<Rightarrow> uint256 \<Rightarrow> uint256) \<Rightarrow> ('sig batch_op list \<Rightarrow> nat) \<Rightarrow> int64 \<Rightarrow> int64 \<Rightarrow>
   'sig CRecoveredSigsDb \<Rightarrow> 'sig CRecoveredSigsDb" where
  "CleanupOldRecoveredSigs bsh est now maxAge d =
     (let endTime = cleanup_endTime now maxAge;
          toDelete2 = takeWhile (\<lambda>k. fst k < endTime) (rs_t_keys (db d));
          toDelete = map snd toDelete2
      in if toDelete = [] then d
         else
           (let bd = cleanup_remove_loop bsh est toDelete ([], d);
                batch = fst bd @ map (\<lambda>k. BErase (K_rs_t (fst k) (snd k))) toDelete2
            in (snd bd)\<lparr>db := db_WriteBatch batch (db (snd bd))\<rparr>))"

definition HasVotedOnId :: "uint256 \<Rightarrow> 'sig CRecoveredSigsDb \<Rightarrow> bool" where
  "HasVotedOnId i d = db_Exists (db d) (K_rs_v i)"

definition GetVoteForId :: "uint256 \<Rightarrow> 'sig CRecoveredSigsDb \<Rightarrow> uint256 option" where
  "GetVoteForId i d = db_Read_uint256 (db d) (K_rs_v i)"

definition WriteVoteForId ::
  "int64 \<Rightarrow> uint256 \<Rightarrow> uint256 \<Rightarrow> 'sig CRecoveredSigsDb \<Rightarrow> 'sig CRecoveredSigsDb" where
  "WriteVoteForId now i m d =
     (let k1 = K_rs_v i;
          k2 = K_rs_vt (ucast now) i;
          batch = [BWrite k1 (V_uint256 m), BWrite k2 (V_uint8 1)]
      in d\<lparr>db := db_WriteBatch batch (db d)\<rparr>)"

definition CleanupOldVotes :: "int64 \<Rightarrow> int64 \<Rightarrow> 'sig CRecoveredSigsDb \<Rightarrow> 'sig CRecoveredSigsDb" where
  "CleanupOldVotes now maxAge d =
     (let endTime = cleanup_endTime now maxAge;
          scanned = takeWhile (\<lambda>k. fst k < endTime) (rs_vt_keys (db d));
          batch = concat (map (\<lambda>k. [BErase (K_rs_vt (fst k) (snd k)), BErase (K_rs_v (snd k))]) scanned)
      in if scanned = [] then d
         else d\<lparr>db := db_WriteBatch batch (db d)\<rparr>)"

text \<open>
  The store as it will be once a pending batch is written, and the well-formedness of
  the id-keyed records: the record stored under \<^verbatim>\<open>("rs_r", id)\<close> has that id, as every
  record written by \<^verbatim>\<open>WriteRecoveredSig\<close> has.
\<close>

definition batch_view ::
  "'sig batch_op list \<times> 'sig CRecoveredSigsDb \<Rightarrow> (dbkey \<rightharpoonup> 'sig dbval)" where
  "batch_view bd = map_of (db_WriteBatch (fst bd) (db (snd bd)))"

definition read_view :: "(dbkey \<rightharpoonup> 'sig dbval) \<Rightarrow> uint256 \<Rightarrow> 'sig CRecoveredSig option" where
  "read_view V e = (case V (K_rs_r e) of Some (V_recSig r) \<Rightarrow> Some r | _ \<Rightarrow> None)"

definition recsig_db_wf :: "'sig kvstore \<Rightarrow> bool" where
  "recsig_db_wf kv \<longleftrightarrow> (\<forall>e r. map_of kv (K_rs_r e) = Some (V_recSig r) \<longrightarrow> id' r = e)"

text \<open>Concrete data for the examples: a stand-in for the sign hash, a signature, an empty store.\<close>

definition ex_bsh :: "uint256 \<Rightarrow> uint256 \<Rightarrow> uint256 \<Rightarrow> uint256" where
  "ex_bsh q i m = q + 2 * i + 3 * m"

definition ex_recSig :: "nat CRecoveredSig" where
  "ex_recSig = \<lparr>quorumHash = 1, id' = 2, msgHash = 3, sig = 1, hash = 4\<rparr>"

definition ex_empty_db :: "nat CRecoveredSigsDb" where
  "ex_empty_db = \<lparr>db = [], hasSigForIdCache = Map.empty, hasSigForSessionCache = Map.empty,
                  hasSigForHashCache = Map.empty\<rparr>"

definition ex_db_50 :: "nat CRecoveredSigsDb" where
  "ex_db_50 = WriteRecoveredSig ex_bsh 50 ex_recSig ex_empty_db"

definition ex_db_100 :: "nat CRecoveredSigsDb" where
  "ex_db_100 = WriteRecoveredSig ex_bsh 100 ex_recSig ex_empty_db"

section \<open>The signing manager (src/llmq/quorums_signing.cpp, CSigningManager)\<close>

text \<open>
  The collaborators of the signing manager are outside the sources at hand: the peer
  manager, the block index and the active chain, the quorum manager, the signature-share
  manager, the BLS primitives and the clock. What they answer is an input of the model,
  collected in \<open>signing_env\<close>; what the manager asks them to do is recorded, call by call,
  in the list \<open>events\<close> of the manager. \<^verbatim>\<open>LogPrintf\<close> lines are events as well; the
  \<^verbatim>\<open>LogPrint(BCLog::LLMQ, ...)\<close> lines of the debug category are left out.
\<close>

record CBlockIndex =
  nHeight :: int
  IsValid_SCRIPTS :: bool

record 'pk CQuorum =
  qc_quorumHash :: uint256
  qc_quorumPublicKey :: 'pk

record ('sig, 'pk) signing_env =
  fMasternodeMode :: bool
  activeProTxHash :: uint256
  adjustedTime :: int64
  GetPeerRef :: "NodeId \<Rightarrow> bool"
  LookupBlockIndex :: "uint256 \<Rightarrow> CBlockIndex option"
  ActiveChain_Contains :: "uint256 \<Rightarrow> bool"
  SIGN_HEIGHT_LOOKBACK :: int
  GetQuorum :: "uint256 \<Rightarrow> 'pk CQuorum option"
  IsQuorumActive :: "uint256 \<Rightarrow> bool"
  IsValidMember :: "'pk CQuorum \<Rightarrow> uint256 \<Rightarrow> bool"
  ActiveHeight :: int
  ScanQuorums :: "int \<Rightarrow> nat \<Rightarrow> 'pk CQuorum list"
  signingActiveQuorumCount :: nat
  SerializeHash2 :: "uint256 \<Rightarrow> uint256 \<Rightarrow> uint256"
  defaultSignOffset :: int
  buildSignHash :: "uint256 \<Rightarrow> uint256 \<Rightarrow> uint256 \<Rightarrow> uint256"
  sig_IsValid :: "'sig \<Rightarrow> bool"
  VerifyInsecure :: "'sig \<Rightarrow> 'pk \<Rightarrow> uint256 \<Rightarrow> bool"

datatype log_msg =
    Log_block_does_not_exist uint256
  | Log_block_height_not_a_factor int uint256
  | Log_block_not_valid_or_confirmed uint256
  | Log_conflicting_recoveredSig uint256 uint256 uint256 uint256
  | Log_not_voting_on_conflicting_msgHash uint256 uint256 uint256

datatype 'sig event =
    AddKnownTx NodeId uint256
  | ReceivedResponse NodeId uint256
  | ForgetTxHash NodeId uint256
  | Misbehaving NodeId nat string
  | RelayRecoveredSig uint256
  | HandleNewRecoveredSig nat "'sig CRecoveredSig"
  | ForceReAnnouncement uint256 uint256 uint256
  | AsyncSign uint256 uint256 uint256
  | LogPrintf log_msg

record 'sig CSigningManager =
  sigDb :: "'sig CRecoveredSigsDb"
  pendingRecoveredSigs :: "(NodeId \<times> 'sig CRecoveredSig list) list"
  pendingReconstructedRecoveredSigs :: "(uint256 \<times> 'sig CRecoveredSig) list"
  recoveredSigsListeners :: "nat list"
  lastCleanupTime :: int
  events :: "'sig event list"

definition emit :: "'sig event list \<Rightarrow> 'sig CSigningManager \<Rightarrow> 'sig CSigningManager" where
  "emit es s = s\<lparr>events := events s @ es\<rparr>"

text \<open>
  \<^verbatim>\<open>ProcessRecoveredSig\<close>, lines 648 to 711: the signature passed the checks of the block
  its message hash names and its content hash is not known. \<^verbatim>\<open>bAlreadyKnown\<close> and
  \<^verbatim>\<open>bAlreadyKnownReturn\<close> of the source select among the four branches below: a
  conflicting record for the id (logged, nothing written), the same sign hash already
  stored (nothing written), a record that vanished between the two reads (written again),
  and no record for the id (written).
\<close>

definition write_and_publish ::
  "('sig, 'pk) signing_env \<Rightarrow> NodeId \<Rightarrow> 'sig CRecoveredSig \<Rightarrow> bool \<Rightarrow>
   'sig CSigningManager \<Rightarrow> 'sig CSigningManager" where
  "write_and_publish env nodeId recoveredSig bAlreadyKnown s =
     (let h = GetHash recoveredSig;
          listeners = recoveredSigsListeners s;
          s1 = s\<lparr>sigDb := WriteRecoveredSig (buildSignHash env) (adjustedTime env) recoveredSig (sigDb s),
                 pendingReconstructedRecoveredSigs :=
                   AList.delete h (pendingReconstructedRecoveredSigs s)\<rparr>
      in emit ((if bAlreadyKnown then [ForgetTxHash nodeId h] else []) @
               (if fMasternodeMode env then [RelayRecoveredSig h] else []) @
               map (\<lambda>l. HandleNewRecoveredSig l recoveredSig) listeners @
               [ForgetTxHash nodeId h]) s1)"

definition ProcessRecoveredSig_accept ::
  "('sig, 'pk) signing_env \<Rightarrow> NodeId \<Rightarrow> 'sig CRecoveredSig \<Rightarrow>
   'sig CSigningManager \<Rightarrow> 'sig CSigningManager" where
  "ProcessRecoveredSig_accept env nodeId recoveredSig s =
     (let h = GetHash recoveredSig;
          signHash = BuildSignHash (buildSignHash env) recoveredSig;
          (hasId, d1) = HasRecoveredSigForId (id' recoveredSig) (sigDb s);
          s1 = s\<lparr>sigDb := d1\<rparr>
      in if hasId then
           (case GetRecoveredSigById (id' recoveredSig) d1 of
              Some otherRecoveredSig \<Rightarrow>
                (let otherSignHash = BuildSignHash (buildSignHash env) otherRecoveredSig in
                 if signHash \<noteq> otherSignHash then
                   emit [LogPrintf (Log_conflicting_recoveredSig signHash (id' recoveredSig)
                                      (msgHash recoveredSig) otherSignHash),
                         ForgetTxHash nodeId h] s1
                 else emit [ForgetTxHash nodeId h] s1)
            | None \<Rightarrow> write_and_publish env nodeId recoveredSig True s1)
         else write_and_publish env nodeId recoveredSig False s1)"

text \<open>
  \<^verbatim>\<open>ProcessRecoveredSig\<close>, from the start: the checks of the block (the remainder
  \<^verbatim>\<open>nHeight % SIGN_HEIGHT_LOOKBACK\<close> is tested against 0 only, where the truncated and the
  floored remainder agree) and the duplicate by content hash.
\<close>

definition reject_recsig ::
  "('sig, 'pk) signing_env \<Rightarrow> NodeId \<Rightarrow> uint256 \<Rightarrow> log_msg \<Rightarrow> string \<Rightarrow>
   'sig CSigningManager \<Rightarrow> 'sig CSigningManager" where
  "reject_recsig env nodeId h msg reason s =
     emit ([LogPrintf msg, ForgetTxHash nodeId h] @
           (if GetPeerRef env nodeId then [Misbehaving nodeId 10 reason] else [])) s"

definition mark_received ::
  "('sig, 'pk) signing_env \<Rightarrow> NodeId \<Rightarrow> uint256 \<Rightarrow>
   'sig CSigningManager \<Rightarrow> 'sig CSigningManager" where
  "mark_received env nodeId h s =
     emit ((if GetPeerRef env nodeId then [AddKnownTx nodeId h] else []) @
           [ReceivedResponse nodeId h]) s"

definition ProcessRecoveredSig ::
  "('sig, 'pk) signing_env \<Rightarrow> NodeId \<Rightarrow> 'sig CRecoveredSig \<Rightarrow>
   'sig CSigningManager \<Rightarrow> 'sig CSigningManager" where
  "ProcessRecoveredSig env nodeId recoveredSig s =
     (let h = GetHash recoveredSig;
          s1 = mark_received env nodeId h s
      in case LookupBlockIndex env (msgHash recoveredSig) of
           None \<Rightarrow>
             reject_recsig env nodeId h (Log_block_does_not_exist (id' recoveredSig))
               ''invalid recovered signature'' s1
         | Some pindex \<Rightarrow>
             if nHeight pindex mod SIGN_HEIGHT_LOOKBACK env \<noteq> 0 then
               reject_recsig env nodeId h
                 (Log_block_height_not_a_factor (nHeight pindex) (id' recoveredSig))
                 ''invalid recovered signature block height'' s1
             else if \<not> ActiveChain_Contains env (msgHash recoveredSig) \<or> \<not> IsValid_SCRIPTS pindex then
               reject_recsig env nodeId h (Log_block_not_valid_or_confirmed (msgHash recoveredSig))
                 ''recovered signature of unconfirmed block'' s1
             else
               (let (known, d1) = HasRecoveredSigForHash h (sigDb s1);
                    s2 = s1\<lparr>sigDb := d1\<rparr>
                in if known then emit [ForgetTxHash nodeId h] s2
                   else ProcessRecoveredSig_accept env nodeId recoveredSig s2))"

text \<open>
  \<^verbatim>\<open>SelectQuorumForSigning\<close>: the quorum of lowest score among the quorums scanned from
  the block at \<open>signHeight - signOffset\<close>. The block is named by its height.
\<close>

definition SelectQuorumForSigning ::
  "('sig, 'pk) signing_env \<Rightarrow> uint256 \<Rightarrow> int \<Rightarrow> int \<Rightarrow> 'pk CQuorum option" where
  "SelectQuorumForSigning env selectionHash signHeight signOffset =
     (let poolSize = signingActiveQuorumCount env;
          signHeight1 = (if signHeight = - 1 then ActiveHeight env else signHeight);
          startBlockHeight = signHeight1 - signOffset
      in if startBlockHeight > ActiveHeight env \<or> startBlockHeight < 0 then None
         else
           (let quorums = ScanQuorums env startBlockHeight poolSize in
            if quorums = [] then None
            else
              (let scores = sort (map (\<lambda>i. (SerializeHash2 env (qc_quorumHash (quorums ! i)) selectionHash, i))
                                    [0 ..< length quorums])
               in Some (quorums ! snd (hd scores)))))"

text \<open>
  \<^verbatim>\<open>AsyncSignIfMember\<close>. A null \<^verbatim>\<open>uint256\<close> is 0. \<^verbatim>\<open>prevMsgHash\<close> starts null and
  \<^verbatim>\<open>GetVoteForId\<close> fills it when the vote can be read.
\<close>

definition AsyncSignIfMember ::
  "('sig, 'pk) signing_env \<Rightarrow> uint256 \<Rightarrow> uint256 \<Rightarrow> uint256 \<Rightarrow> bool \<Rightarrow>
   'sig CSigningManager \<Rightarrow> bool \<times> 'sig CSigningManager" where
  "AsyncSignIfMember env i m quorumHashIn allowReSign s =
     (if \<not> fMasternodeMode env \<or> activeProTxHash env = 0 then (False, s)
      else
        (case (if quorumHashIn = 0
               then SelectQuorumForSigning env i (- 1) (defaultSignOffset env)
               else GetQuorum env quorumHashIn) of
           None \<Rightarrow> (False, s)
         | Some quorum \<Rightarrow>
             if \<not> IsValidMember env quorum (activeProTxHash env) then (False, s)
             else
               (let hasVoted = HasVotedOnId i (sigDb s);
                    prevMsgHash = (case GetVoteForId i (sigDb s) of Some p \<Rightarrow> p | None \<Rightarrow> 0)
                in if hasVoted \<and> m \<noteq> prevMsgHash then
                     (False, emit [LogPrintf (Log_not_voting_on_conflicting_msgHash i prevMsgHash m)] s)
                   else if hasVoted \<and> \<not> allowReSign then (False, s)
                   else
                     (let (hasRecSig, d1) = HasRecoveredSigForId i (sigDb s);
                          s1 = s\<lparr>sigDb := d1\<rparr>
                      in if hasRecSig then (True, s1)
                         else
                           (let s2 = (if \<not> hasVoted
                                      then s1\<lparr>sigDb := WriteVoteForId (adjustedTime env) i m (sigDb s1)\<rparr>
                                      else s1)
                            in (True,
                                emit ((if allowReSign
                                       then [ForceReAnnouncement (qc_quorumHash quorum) i m]
                                       else []) @
                                      [AsyncSign (qc_quorumHash quorum) i m]) s2))))))"

text \<open>
  Concrete data for the examples: an environment in which the blocks of hash 3 and 5 are
  on the active chain at heights 10 and 15 and no other block is known, a manager whose
  store holds \<open>ex_recSig\<close> (id 2, message hash 3), and two more signatures for the id 2:
  \<open>ex_recSig_b\<close> with message hash 5 and \<open>ex_recSig_c\<close> with message hash 7.
\<close>

definition ex_quorum :: "nat CQuorum" where
  "ex_quorum = \<lparr>qc_quorumHash = 1, qc_quorumPublicKey = 0\<rparr>"

definition ex_env :: "(nat, nat) signing_env" where
  "ex_env =
     \<lparr>fMasternodeMode = True, activeProTxHash = 9, adjustedTime = 100,
      GetPeerRef = (\<lambda>n. n \<noteq> - 1),
      LookupBlockIndex =
        (\<lambda>h. if h = 3 then Some \<lparr>nHeight = 10, IsValid_SCRIPTS = True\<rparr>
             else if h = 5 then Some \<lparr>nHeight = 15, IsValid_SCRIPTS = True\<rparr> else None),
      ActiveChain_Contains = (\<lambda>h. h = 3 \<or> h = 5),
      SIGN_HEIGHT_LOOKBACK = 5,
      GetQuorum = (\<lambda>h. if h = 1 then Some ex_quorum else None),
      IsQuorumActive = (\<lambda>h. h = 1),
      IsValidMember = (\<lambda>q p. True),
      ActiveHeight = 20,
      ScanQuorums = (\<lambda>h n. [ex_quorum]),
      signingActiveQuorumCount = 1,
      SerializeHash2 = (\<lambda>a b. a + b),
      defaultSignOffset = 5,
      buildSignHash = ex_bsh,
      sig_IsValid = (\<lambda>sg. sg \<noteq> 0),
      VerifyInsecure = (\<lambda>sg pk h. sg = 1)\<rparr>"

definition ex_mgr_empty :: "nat CSigningManager" where
  "ex_mgr_empty =
     \<lparr>sigDb = ex_empty_db, pendingRecoveredSigs = [], pendingReconstructedRecoveredSigs = [],
      recoveredSigsListeners = [], lastCleanupTime = 0, events = []\<rparr>"

definition ex_mgr :: "nat CSigningManager" where
  "ex_mgr = ex_mgr_empty\<lparr>sigDb := ex_db_50\<rparr>"

definition ex_recSig_b :: "nat CRecoveredSig" where
  "ex_recSig_b = \<lparr>quorumHash = 1, id' = 2, msgHash = 5, sig = 1, hash = 6\<rparr>"

definition ex_recSig_c :: "nat CRecoveredSig" where
  "ex_recSig_c = \<lparr>quorumHash = 1, id' = 2, msgHash = 7, sig = 1, hash = 8\<rparr>"

text \<open>
  \<^verbatim>\<open>CSigningManager::Clear\<close> (lines 724 to 729) empties the store through the two sweeps
  with \<^verbatim>\<open>maxAge = 0\<close>. \<open>ex_mgr_100\<close> holds \<open>ex_recSig\<close>, written at the time 100.
\<close>

definition Clear ::
  "('sig, 'pk) signing_env \<Rightarrow> ('sig batch_op list \<Rightarrow> nat) \<Rightarrow> 'sig CSigningManager \<Rightarrow>
   'sig CSigningManager" where
  "Clear env est s =
     (let maxAge = 0;
          d1 = CleanupOldRecoveredSigs (buildSignHash env) est (adjustedTime env) maxAge (sigDb s)
      in s\<lparr>sigDb := CleanupOldVotes (adjustedTime env) maxAge d1\<rparr>)"

definition ex_mgr_100 :: "nat CSigningManager" where
  "ex_mgr_100 = ex_mgr_empty\<lparr>sigDb := ex_db_100\<rparr>"

section \<open>Batched verification of pending recovered signatures (CSigningManager::ProcessPendingRecoveredSigs)\<close>

text \<open>
  Modelled from the spec: the batch verifier (\<^verbatim>\<open>CBLSBatchVerifier<NodeId, uint256>\<close>, of
  bls\_batchverifier.h, not part of the sources at hand). It collects the messages pushed
  per source and \<^verbatim>\<open>Verify\<close> verifies them against their public keys; a source with a
  message that fails is added to \<^verbatim>\<open>badSources\<close> ("origins contributing any invalid item are
  flagged as misbehaving"). A message is (source, message id, sign hash, signature, public
  key).
\<close>

record ('sig, 'pk) CBLSBatchVerifier =
  badSources :: "NodeId set"
  messages :: "(NodeId \<times> uint256 \<times> uint256 \<times> 'sig \<times> 'pk) list"

definition PushMessage ::
  "NodeId \<Rightarrow> uint256 \<Rightarrow> uint256 \<Rightarrow> 'sig \<Rightarrow> 'pk \<Rightarrow> ('sig, 'pk) CBLSBatchVerifier \<Rightarrow>
   ('sig, 'pk) CBLSBatchVerifier" where
  "PushMessage sourceId msgId signHash sg pubKey bv =
     bv\<lparr>messages := messages bv @ [(sourceId, msgId, signHash, sg, pubKey)]\<rparr>"

definition message_fails ::
  "('sig, 'pk) signing_env \<Rightarrow> NodeId \<times> uint256 \<times> uint256 \<times> 'sig \<times> 'pk \<Rightarrow> bool" where
  "message_fails env msg =
     (case msg of (sourceId, msgId, signHash, sg, pubKey) \<Rightarrow> \<not> VerifyInsecure env sg pubKey signHash)"

definition Verify ::
  "('sig, 'pk) signing_env \<Rightarrow> ('sig, 'pk) CBLSBatchVerifier \<Rightarrow> ('sig, 'pk) CBLSBatchVerifier" where
  "Verify env bv =
     bv\<lparr>badSources := badSources bv \<union> set (map fst (filter (message_fails env) (messages bv)))\<rparr>"

text \<open>
  The second loop of \<^verbatim>\<open>CollectPendingRecoveredSigsToVerify\<close> (lines 492 to 519): for every
  candidate whose quorum hash is not yet in \<^verbatim>\<open>retQuorums\<close> the quorum is looked up; the
  candidate is erased when the quorum is not found or not active any more, otherwise the
  quorum is added to \<^verbatim>\<open>retQuorums\<close>. A node stays in the map when all of its candidates
  were erased.
\<close>

fun collect_node_quorums ::
  "('sig, 'pk) signing_env \<Rightarrow> 'sig CRecoveredSig list \<Rightarrow> (uint256 \<rightharpoonup> 'pk CQuorum) \<Rightarrow>
   'sig CRecoveredSig list \<times> (uint256 \<rightharpoonup> 'pk CQuorum)" where
  "collect_node_quorums env [] retQuorums = ([], retQuorums)"
| "collect_node_quorums env (recSig # v) retQuorums =
     (if retQuorums (quorumHash recSig) = None then
        (case GetQuorum env (quorumHash recSig) of
           None \<Rightarrow> collect_node_quorums env v retQuorums
         | Some quorum \<Rightarrow>
             if \<not> IsQuorumActive env (qc_quorumHash quorum)
             then collect_node_quorums env v retQuorums
             else
               (case collect_node_quorums env v (retQuorums(quorumHash recSig \<mapsto> quorum)) of
                  (v', retQuorums') \<Rightarrow> (recSig # v', retQuorums')))
      else
        (case collect_node_quorums env v retQuorums of
           (v', retQuorums') \<Rightarrow> (recSig # v', retQuorums')))"

fun collect_quorums ::
  "('sig, 'pk) signing_env \<Rightarrow> (NodeId \<times> 'sig CRecoveredSig list) list \<Rightarrow> (uint256 \<rightharpoonup> 'pk CQuorum) \<Rightarrow>
   (NodeId \<times> 'sig CRecoveredSig list) list \<times> (uint256 \<rightharpoonup> 'pk CQuorum)" where
  "collect_quorums env [] retQuorums = ([], retQuorums)"
| "collect_quorums env ((nodeId, v) # rest) retQuorums =
     (case collect_node_quorums env v retQuorums of
        (v', retQuorums1) \<Rightarrow>
          (case collect_quorums env rest retQuorums1 of
             (rest', retQuorums2) \<Rightarrow> ((nodeId, v') # rest', retQuorums2)))"

text \<open>
  The first loop of \<^verbatim>\<open>ProcessPendingRecoveredSigs\<close> (lines 552 to 567): for every node, its
  signatures are pushed in order up to the first that is not structurally valid, which
  makes the node a bad source. \<^verbatim>\<open>quorums.at(...)\<close> throws \<^verbatim>\<open>std::out_of_range\<close> for a quorum
  hash that is not in the map: the result \<open>None\<close>.
\<close>

fun push_node_sigs ::
  "('sig, 'pk) signing_env \<Rightarrow> (uint256 \<rightharpoonup> 'pk CQuorum) \<Rightarrow> NodeId \<Rightarrow> 'sig CRecoveredSig list \<Rightarrow>
   ('sig, 'pk) CBLSBatchVerifier \<Rightarrow> ('sig, 'pk) CBLSBatchVerifier option" where
  "push_node_sigs env quorums nodeId [] bv = Some bv"
| "push_node_sigs env quorums nodeId (recSig # v) bv =
     (if \<not> sig_IsValid env (sig recSig)
      then Some (bv\<lparr>badSources := insert nodeId (badSources bv)\<rparr>)
      else
        (case quorums (quorumHash recSig) of
           None \<Rightarrow> None
         | Some quorum \<Rightarrow>
             push_node_sigs env quorums nodeId v
               (PushMessage nodeId (GetHash recSig) (BuildSignHash (buildSignHash env) recSig)
                  (sig recSig) (qc_quorumPublicKey quorum) bv)))"

fun push_all_sigs ::
  "('sig, 'pk) signing_env \<Rightarrow> (uint256 \<rightharpoonup> 'pk CQuorum) \<Rightarrow> (NodeId \<times> 'sig CRecoveredSig list) list \<Rightarrow>
   ('sig, 'pk) CBLSBatchVerifier \<Rightarrow> ('sig, 'pk) CBLSBatchVerifier option" where
  "push_all_sigs env quorums [] bv = Some bv"
| "push_all_sigs env quorums ((nodeId, v) # rest) bv =
     (case push_node_sigs env quorums nodeId v bv of
        None \<Rightarrow> None
      | Some bv1 \<Rightarrow> push_all_sigs env quorums rest bv1)"

text \<open>
  The second loop (lines 575 to 594): a bad source is reported to the peer manager and
  skipped; of the other nodes every signature whose content hash was not yet processed
  in this round goes to \<^verbatim>\<open>ProcessRecoveredSig\<close>.
\<close>

fun process_node_sigs ::
  "('sig, 'pk) signing_env \<Rightarrow> NodeId \<Rightarrow> 'sig CRecoveredSig list \<Rightarrow>
   uint256 set \<times> 'sig CSigningManager \<Rightarrow> uint256 set \<times> 'sig CSigningManager" where
  "process_node_sigs env nodeId [] ps = ps"
| "process_node_sigs env nodeId (recSig # v) ps =
     (if GetHash recSig \<in> fst ps then process_node_sigs env nodeId v ps
      else process_node_sigs env nodeId v
             (insert (GetHash recSig) (fst ps), ProcessRecoveredSig env nodeId recSig (snd ps)))"

fun process_all_nodes ::
  "('sig, 'pk) signing_env \<Rightarrow> NodeId set \<Rightarrow> (NodeId \<times> 'sig CRecoveredSig list) list \<Rightarrow>
   uint256 set \<times> 'sig CSigningManager \<Rightarrow> uint256 set \<times> 'sig CSigningManager" where
  "process_all_nodes env bad [] ps = ps"
| "process_all_nodes env bad ((nodeId, v) # rest) ps =
     (if nodeId \<in> bad then
        process_all_nodes env bad rest
          (fst ps,
           emit (if GetPeerRef env nodeId
                 then [Misbehaving nodeId 100 ''invalid recSig from other node''] else []) (snd ps))
      else process_all_nodes env bad rest (process_node_sigs env nodeId v ps))"

text \<open>
  \<^verbatim>\<open>ProcessPendingRecoveredSigs\<close> from line 543 on, for the candidates \<open>recSigsByNode\<close> and the
  quorums that \<^verbatim>\<open>CollectPendingRecoveredSigsToVerify\<close> returned. The nodes are listed in the
  order in which the \<^verbatim>\<open>unordered_map\<close> is iterated. The result is \<open>None\<close> when
  \<^verbatim>\<open>quorums.at\<close> throws.
\<close>

definition verify_and_process ::
  "('sig, 'pk) signing_env \<Rightarrow> (NodeId \<times> 'sig CRecoveredSig list) list \<Rightarrow> (uint256 \<rightharpoonup> 'pk CQuorum) \<Rightarrow>
   'sig CSigningManager \<Rightarrow> (bool \<times> 'sig CSigningManager) option" where
  "verify_and_process env recSigsByNode quorums s =
     (if recSigsByNode = [] then Some (False, s)
      else
        (case push_all_sigs env quorums recSigsByNode \<lparr>badSources = {}, messages = []\<rparr> of
           None \<Rightarrow> None
         | Some bv \<Rightarrow>
             (let batchVerifier = Verify env bv;
                  ps = process_all_nodes env (badSources batchVerifier) recSigsByNode ({}, s)
              in Some (length recSigsByNode \<ge> 32, snd ps))))"

text \<open>
  A candidate is valid when its signature is structurally valid and verifies against the
  public key of its quorum for its sign hash. \<open>new_events\<close> are the events of a run.
\<close>

definition recsig_valid ::
  "('sig, 'pk) signing_env \<Rightarrow> (uint256 \<rightharpoonup> 'pk CQuorum) \<Rightarrow> 'sig CRecoveredSig \<Rightarrow> bool" where
  "recsig_valid env quorums recSig \<longleftrightarrow>
     sig_IsValid env (sig recSig) \<and>
     (case quorums (quorumHash recSig) of
        None \<Rightarrow> False
      | Some quorum \<Rightarrow>
          VerifyInsecure env (sig recSig) (qc_quorumPublicKey quorum)
            (BuildSignHash (buildSignHash env) recSig))"

definition new_events :: "'sig CSigningManager \<Rightarrow> 'sig CSigningManager \<Rightarrow> 'sig event list" where
  "new_events s s' = drop (length (events s)) (events s')"

definition flagged :: "('sig, 'pk) signing_env \<Rightarrow> ('sig, 'pk) CBLSBatchVerifier \<Rightarrow> NodeId set" where
  "flagged env bv = badSources (Verify env bv)"

text \<open>
  Two readings of a list of events: the responses received (node and content hash), one
  for every call of \<^verbatim>\<open>ProcessRecoveredSig\<close>, and the nodes reported for misbehaviour with
  the score 100. \<open>fresh_hashes\<close> and \<open>planned_calls\<close> follow the second loop and list the
  calls of \<^verbatim>\<open>ProcessRecoveredSig\<close> it makes.
\<close>

fun response_of :: "'sig event \<Rightarrow> (NodeId \<times> uint256) list" where
  "response_of (ReceivedResponse m k) = [(m, k)]"
| "response_of _ = []"

fun report_of :: "'sig event \<Rightarrow> NodeId list" where
  "report_of (Misbehaving m k r) = (if k = 100 then [m] else [])"
| "report_of _ = []"

definition responses :: "'sig event list \<Rightarrow> (NodeId \<times> uint256) list" where
  "responses es = concat (map response_of es)"

definition reports_100 :: "'sig event list \<Rightarrow> NodeId list" where
  "reports_100 es = concat (map report_of es)"

fun fresh_hashes :: "uint256 set \<Rightarrow> 'sig CRecoveredSig list \<Rightarrow> uint256 list" where
  "fresh_hashes P [] = []"
| "fresh_hashes P (recSig # v) =
     (if GetHash recSig \<in> P then fresh_hashes P v
      else GetHash recSig # fresh_hashes (insert (GetHash recSig) P) v)"

fun planned_calls ::
  "NodeId set \<Rightarrow> (NodeId \<times> 'sig CRecoveredSig list) list \<Rightarrow> uint256 set \<Rightarrow> (NodeId \<times> uint256) list" where
  "planned_calls bad [] P = []"
| "planned_calls bad ((nodeId, v) # rest) P =
     (if nodeId \<in> bad then planned_calls bad rest P
      else map (Pair nodeId) (fresh_hashes P v) @ planned_calls bad rest (P \<union> GetHash ` set v))"

text \<open>
  What the round does with a candidate of a good origin. \<open>block_accepted\<close> are the checks of
  \<^verbatim>\<open>ProcessRecoveredSig\<close> (lines 611 to 637) of the block that the message hash names. A
  candidate is unknown when the store answers false for its content hash and for its id,
  and stored when the id-keyed record is the candidate and both existence caches answer
  true. \<open>sole_candidate\<close>: no other candidate of an origin other than \<open>b\<close> carries the id or
  the content hash of the candidate.
\<close>

definition block_accepted :: "('sig, 'pk) signing_env \<Rightarrow> 'sig CRecoveredSig \<Rightarrow> bool" where
  "block_accepted env recSig =
     (case LookupBlockIndex env (msgHash recSig) of
        None \<Rightarrow> False
      | Some pindex \<Rightarrow>
          nHeight pindex mod SIGN_HEIGHT_LOOKBACK env = 0 \<and>
          ActiveChain_Contains env (msgHash recSig) \<and> IsValid_SCRIPTS pindex)"

definition recsig_unknown :: "'sig CRecoveredSig \<Rightarrow> 'sig CRecoveredSigsDb \<Rightarrow> bool" where
  "recsig_unknown recSig d \<longleftrightarrow>
     \<not> fst (HasRecoveredSigForHash (GetHash recSig) d) \<and>
     \<not> fst (HasRecoveredSigForId (id' recSig) d)"

definition recsig_stored :: "'sig CRecoveredSig \<Rightarrow> 'sig CRecoveredSigsDb \<Rightarrow> bool" where
  "recsig_stored recSig d \<longleftrightarrow>
     hasSigForIdCache d (id' recSig) = Some True \<and>
     hasSigForHashCache d (GetHash recSig) = Some True \<and>
     GetRecoveredSigById (id' recSig) d = Some recSig"

definition sole_candidate ::
  "NodeId \<Rightarrow> (NodeId \<times> 'sig CRecoveredSig list) list \<Rightarrow> 'sig CRecoveredSig \<Rightarrow> bool" where
  "sole_candidate b recSigsByNode recSig \<longleftrightarrow>
     (\<forall>nv \<in> set recSigsByNode. fst nv \<noteq> b \<longrightarrow>
        (\<forall>r \<in> set (snd nv). r \<noteq> recSig \<longrightarrow> id' r \<noteq> id' recSig \<and> GetHash r \<noteq> GetHash recSig))"

text \<open>
  A candidate in the course of a round that started in the state \<open>s0\<close>: not yet processed
  (\<open>round_pending\<close>), or written to the store and handed to every listener
  (\<open>round_accepted\<close>). In both the events of the round extend those of \<open>s0\<close> and the
  listeners are those of \<open>s0\<close>.
\<close>

definition round_pending ::
  "'sig CRecoveredSig \<Rightarrow> 'sig CSigningManager \<Rightarrow> 'sig CSigningManager \<Rightarrow> bool" where
  "round_pending recSig s0 s \<longleftrightarrow>
     recsig_unknown recSig (sigDb s) \<and> events s = events s0 @ new_events s0 s \<and>
     recoveredSigsListeners s = recoveredSigsListeners s0"

definition round_accepted ::
  "'sig CRecoveredSig \<Rightarrow> 'sig CSigningManager \<Rightarrow> 'sig CSigningManager \<Rightarrow> bool" where
  "round_accepted recSig s0 s \<longleftrightarrow>
     recsig_stored recSig (sigDb s) \<and> events s = events s0 @ new_events s0 s \<and>
     recoveredSigsListeners s = recoveredSigsListeners s0 \<and>
     list_all (\<lambda>l. HandleNewRecoveredSig l recSig \<in> set (new_events s0 s))
       (recoveredSigsListeners s0)"

text \<open>
  Rounds for the examples. \<open>ex_pending\<close>: the node 7 sends \<open>ex_recSig_b\<close> and a signature
  of the unknown quorum 4, the node 8 sends \<open>ex_recSig_c\<close> and a signature that is
  structurally valid and does not verify, the node 9 sends \<open>ex_recSig_b\<close> and
  \<open>ex_recSig_d\<close>; \<open>ex_collected\<close> is what the quorum lookup leaves of it. In
  \<open>ex_round_unknown_block\<close> the good node 7 sends \<open>ex_recSig_c\<close>, whose message hash names
  no known block. In \<open>ex_round_gone_peer\<close> the bad origin is the node -1, which the peer
  manager does not know.
\<close>

definition ex_recSig_forged :: "nat CRecoveredSig" where
  "ex_recSig_forged = \<lparr>quorumHash = 1, id' = 3, msgHash = 3, sig = 2, hash = 9\<rparr>"

definition ex_recSig_stray :: "nat CRecoveredSig" where
  "ex_recSig_stray = \<lparr>quorumHash = 4, id' = 3, msgHash = 3, sig = 1, hash = 10\<rparr>"

definition ex_recSig_d :: "nat CRecoveredSig" where
  "ex_recSig_d = \<lparr>quorumHash = 1, id' = 3, msgHash = 3, sig = 1, hash = 12\<rparr>"

definition ex_pending :: "(NodeId \<times> nat CRecoveredSig list) list" where
  "ex_pending =
     [(7, [ex_recSig_b, ex_recSig_stray]), (8, [ex_recSig_c, ex_recSig_forged]),
      (9, [ex_recSig_b, ex_recSig_d])]"

definition ex_collected :: "(NodeId \<times> nat CRecoveredSig list) list" where
  "ex_collected =
     [(7, [ex_recSig_b]), (8, [ex_recSig_c, ex_recSig_forged]), (9, [ex_recSig_b, ex_recSig_d])]"

definition ex_round_unknown_block :: "(NodeId \<times> nat CRecoveredSig list) list" where
  "ex_round_unknown_block = [(7, [ex_recSig_c]), (8, [ex_recSig_forged])]"

definition ex_round_gone_peer :: "(NodeId \<times> nat CRecoveredSig list) list" where
  "ex_round_gone_peer = [(7, [ex_recSig_b]), (- 1, [ex_recSig_forged])]"

section \<open>The DKG session manager (src/llmq/quorums\_dkgsessionmgr.cpp, CDKGSessionManager)\<close>

text \<open>
  The store of verified contributions has the keys \<^verbatim>\<open>("qdkg_V", quorumHash, proTxHash)\<close>
  for a verification vector and \<^verbatim>\<open>("qdkg_S", quorumHash, proTxHash)\<close> for a secret-key
  share. Public keys and secret keys are type parameters. \<^verbatim>\<open>contributionsCache\<close> is a
  \<^verbatim>\<open>std::map\<close> from (quorum hash, proTxHash) to an entry.
\<close>

datatype dkg_key = K_qdkg_V uint256 uint256 | K_qdkg_S uint256 uint256

datatype ('pk, 'sk) dkg_val = V_vvec "'pk list" | V_skContribution 'sk

record ('pk, 'sk) ContributionsCacheEntry =
  entryTime :: int
  vvec :: "'pk list"
  skContribution :: 'sk

record ('pk, 'sk) CDKGSessionManager =
  dkg_db :: "dkg_key \<rightharpoonup> ('pk, 'sk) dkg_val"
  contributionsCache :: "uint256 \<times> uint256 \<rightharpoonup> ('pk, 'sk) ContributionsCacheEntry"

definition Read_vvec :: "(dkg_key \<rightharpoonup> ('pk, 'sk) dkg_val) \<Rightarrow> dkg_key \<Rightarrow> 'pk list option" where
  "Read_vvec kv k = (case kv k of Some (V_vvec v) \<Rightarrow> Some v | _ \<Rightarrow> None)"

definition Read_skContribution :: "(dkg_key \<rightharpoonup> ('pk, 'sk) dkg_val) \<Rightarrow> dkg_key \<Rightarrow> 'sk option" where
  "Read_skContribution kv k = (case kv k of Some (V_skContribution sk) \<Rightarrow> Some sk | _ \<Rightarrow> None)"

definition WriteVerifiedVvecContribution ::
  "uint256 \<Rightarrow> uint256 \<Rightarrow> 'pk list \<Rightarrow> ('pk, 'sk) CDKGSessionManager \<Rightarrow> ('pk, 'sk) CDKGSessionManager" where
  "WriteVerifiedVvecContribution hashQuorum proTxHash vv m =
     m\<lparr>dkg_db := (dkg_db m)(K_qdkg_V hashQuorum proTxHash \<mapsto> V_vvec vv)\<rparr>"

definition WriteVerifiedSkContribution ::
  "uint256 \<Rightarrow> uint256 \<Rightarrow> 'sk \<Rightarrow> ('pk, 'sk) CDKGSessionManager \<Rightarrow> ('pk, 'sk) CDKGSessionManager" where
  "WriteVerifiedSkContribution hashQuorum proTxHash sk m =
     m\<lparr>dkg_db := (dkg_db m)(K_qdkg_S hashQuorum proTxHash \<mapsto> V_skContribution sk)\<rparr>"

text \<open>
  \<^verbatim>\<open>GetVerifiedContributions\<close>. Inputs from outside: \<open>members\<close>, the \<^verbatim>\<open>proTxHash\<close> of every
  member that \<^verbatim>\<open>GetAllQuorumMembers(pQuorumBaseBlockIndex)\<close> returns, in order; \<open>blockHash\<close>,
  the hash of the quorum base block; \<open>now\<close>, the clock in milliseconds; \<open>sk0\<close>, the
  default-constructed \<^verbatim>\<open>CBLSSecretKey\<close>, which \<^verbatim>\<open>db->Read\<close> leaves untouched when the share
  is missing. The result carries the three output vectors also when the function returns
  \<^verbatim>\<open>false\<close>, as the references of the caller do. \<^verbatim>\<open>validMembers[i]\<close> past the end of the
  bitset is undefined behaviour in C++: the status \<open>GVC_undefined\<close>. The indexes are
  \<^verbatim>\<open>uint16_t\<close>.
\<close>

datatype gvc_status = GVC_true | GVC_false | GVC_undefined

type_synonym ('pk, 'sk) gvc_out =
  "16 word list \<times> 'pk list list \<times> 'sk list \<times> ('pk, 'sk) CDKGSessionManager"

fun GetVerifiedContributions_loop ::
  "uint256 \<Rightarrow> bool list \<Rightarrow> int \<Rightarrow> 'sk \<Rightarrow> nat \<Rightarrow> uint256 list \<Rightarrow> ('pk, 'sk) gvc_out \<Rightarrow>
   gvc_status \<times> ('pk, 'sk) gvc_out" where
  "GetVerifiedContributions_loop blockHash validMembers now sk0 i [] out = (GVC_true, out)"
| "GetVerifiedContributions_loop blockHash validMembers now sk0 i (proTxHash # rest)
     (memberIndexesRet, vvecsRet, skContributionsRet, m) =
     (if i \<ge> length validMembers then
        (GVC_undefined, (memberIndexesRet, vvecsRet, skContributionsRet, m))
      else if validMembers ! i then
        (case contributionsCache m (blockHash, proTxHash) of
           Some e \<Rightarrow>
             GetVerifiedContributions_loop blockHash validMembers now sk0 (Suc i) rest
               (memberIndexesRet @ [of_nat i], vvecsRet @ [vvec e],
                skContributionsRet @ [skContribution e], m)
         | None \<Rightarrow>
             (case Read_vvec (dkg_db m) (K_qdkg_V blockHash proTxHash) of
                None \<Rightarrow> (GVC_false, (memberIndexesRet, vvecsRet, skContributionsRet, m))
              | Some vv \<Rightarrow>
                  (let sk = (case Read_skContribution (dkg_db m) (K_qdkg_S blockHash proTxHash) of
                               Some k \<Rightarrow> k | None \<Rightarrow> sk0);
                       e = \<lparr>entryTime = now, vvec = vv, skContribution = sk\<rparr>;
                       m1 = m\<lparr>contributionsCache := (contributionsCache m)((blockHash, proTxHash) \<mapsto> e)\<rparr>
                   in GetVerifiedContributions_loop blockHash validMembers now sk0 (Suc i) rest
                        (memberIndexesRet @ [of_nat i], vvecsRet @ [vvec e],
                         skContributionsRet @ [skContribution e], m1))))
      else
        GetVerifiedContributions_loop blockHash validMembers now sk0 (Suc i) rest
          (memberIndexesRet, vvecsRet, skContributionsRet, m))"

definition GetVerifiedContributions ::
  "uint256 list \<Rightarrow> uint256 \<Rightarrow> bool list \<Rightarrow> int \<Rightarrow> 'sk \<Rightarrow> ('pk, 'sk) CDKGSessionManager \<Rightarrow>
   gvc_status \<times> ('pk, 'sk) gvc_out" where
  "GetVerifiedContributions members blockHash validMembers now sk0 m =
     GetVerifiedContributions_loop blockHash validMembers now sk0 0 members ([], [], [], m)"

text \<open>
  What the cache or else the store holds for a member: whether there is a verification
  vector, and the vector and the share that one round of the loop appends. The members
  marked valid in the bitset, each with its index, are \<open>valid_members\<close>.
\<close>

definition has_vvec :: "('pk, 'sk) CDKGSessionManager \<Rightarrow> uint256 \<Rightarrow> uint256 \<Rightarrow> bool" where
  "has_vvec m blockHash proTxHash \<longleftrightarrow>
     contributionsCache m (blockHash, proTxHash) \<noteq> None \<or>
     Read_vvec (dkg_db m) (K_qdkg_V blockHash proTxHash) \<noteq> None"

definition vvec_of :: "('pk, 'sk) CDKGSessionManager \<Rightarrow> uint256 \<Rightarrow> uint256 \<Rightarrow> 'pk list" where
  "vvec_of m blockHash proTxHash =
     (case contributionsCache m (blockHash, proTxHash) of
        Some e \<Rightarrow> vvec e
      | None \<Rightarrow>
          (case Read_vvec (dkg_db m) (K_qdkg_V blockHash proTxHash) of
             Some vv \<Rightarrow> vv | None \<Rightarrow> []))"

definition sk_of :: "('pk, 'sk) CDKGSessionManager \<Rightarrow> 'sk \<Rightarrow> uint256 \<Rightarrow> uint256 \<Rightarrow> 'sk" where
  "sk_of m sk0 blockHash proTxHash =
     (case contributionsCache m (blockHash, proTxHash) of
        Some e \<Rightarrow> skContribution e
      | None \<Rightarrow>
          (case Read_skContribution (dkg_db m) (K_qdkg_S blockHash proTxHash) of
             Some k \<Rightarrow> k | None \<Rightarrow> sk0))"

definition valid_members_from :: "bool list \<Rightarrow> nat \<Rightarrow> uint256 list \<Rightarrow> (nat \<times> uint256) list" where
  "valid_members_from validMembers i members =
     filter (\<lambda>jp. validMembers ! fst jp) (zip [i ..< i + length members] members)"

definition valid_members :: "bool list \<Rightarrow> uint256 list \<Rightarrow> (nat \<times> uint256) list" where
  "valid_members validMembers members = valid_members_from validMembers 0 members"

text \<open>The manager after one round of the loop for a valid member: its contribution is cached.\<close>

definition cache_filled ::
  "int \<Rightarrow> 'sk \<Rightarrow> uint256 \<Rightarrow> uint256 \<Rightarrow> ('pk, 'sk) CDKGSessionManager \<Rightarrow> ('pk, 'sk) CDKGSessionManager" where
  "cache_filled now sk0 blockHash proTxHash m =
     (case contributionsCache m (blockHash, proTxHash) of
        Some e \<Rightarrow> m
      | None \<Rightarrow>
          m\<lparr>contributionsCache := (contributionsCache m)((blockHash, proTxHash) \<mapsto>
               \<lparr>entryTime = now, vvec = vvec_of m blockHash proTxHash,
                skContribution = sk_of m sk0 blockHash proTxHash\<rparr>)\<rparr>)"

text \<open>An example: one member, marked valid, whose verification vector is stored and whose share is not.\<close>

definition ex_dkg :: "(nat, nat) CDKGSessionManager" where
  "ex_dkg = WriteVerifiedVvecContribution 1 11 [5, 6]
              \<lparr>dkg_db = Map.empty, contributionsCache = Map.empty\<rparr>"

definition ex_dkg_full :: "(nat, nat) CDKGSessionManager" where
  "ex_dkg_full = WriteVerifiedSkContribution 1 11 8 ex_dkg"

section \<open>Properties of the bounded write-back cache\<close>

subsection \<open>The representation invariant holds in every reachable state\<close>

lemma inv_init: "evodb_inv (CEvoDB_init m st)"
  by (simp add: evodb_inv_def CEvoDB_init_def)

lemma set_list_erase: "set (list_erase it xs) = {n \<in> set xs. fst n \<noteq> it}"
  by (auto simp: list_erase_def)

lemma distinct_list_erase: "distinct (map fst xs) \<Longrightarrow> distinct (map fst (list_erase it xs))"
  by (simp add: list_erase_def distinct_map_filter)

lemma inv_node_unique:
  "evodb_inv s \<Longrightarrow> (it, k, v) \<in> set (fifoList s) \<Longrightarrow> (it, k', v') \<in> set (fifoList s) \<Longrightarrow> k' = k \<and> v' = v"
  unfolding evodb_inv_def
  by (metis (no_types, lifting) eq_key_imp_eq_value prod.inject)

lemma inv_erase_pending_write:
  assumes "evodb_inv s"
  shows "evodb_inv (erase_pending_write key s)"
proof (cases "mapCache s key")
  case None
  then show ?thesis using assms by (simp add: erase_pending_write_def)
next
  case (Some it)
  have d: "distinct (map fst (fifoList s))" using assms by (simp add: evodb_inv_def)
  have m: "\<And>k i. mapCache s k = Some i \<longleftrightarrow> (\<exists>v. (i, k, v) \<in> set (fifoList s))"
    using assms by (simp add: evodb_inv_def)
  have uniq: "\<And>i k v k' v'. (i, k, v) \<in> set (fifoList s) \<Longrightarrow> (i, k', v') \<in> set (fifoList s) \<Longrightarrow> k' = k \<and> v' = v"
    using inv_node_unique [OF assms] by blast
  have "\<And>k i. ((mapCache s)(key := None)) k = Some i \<longleftrightarrow> (\<exists>v. (i, k, v) \<in> set (list_erase it (fifoList s)))"
  proof -
    fix k i
    show "((mapCache s)(key := None)) k = Some i \<longleftrightarrow> (\<exists>v. (i, k, v) \<in> set (list_erase it (fifoList s)))"
    proof (cases "k = key")
      case True
      have "\<not> (\<exists>v. (i, key, v) \<in> set (list_erase it (fifoList s)))"
      proof
        assume "\<exists>v. (i, key, v) \<in> set (list_erase it (fifoList s))"
        then obtain v where v: "(i, key, v) \<in> set (fifoList s)" "i \<noteq> it"
          by (auto simp: set_list_erase)
        then have "mapCache s key = Some i" using m by blast
        with Some v show False by simp
      qed
      with True show ?thesis by simp
    next
      case False
      have "(\<exists>v. (i, k, v) \<in> set (list_erase it (fifoList s))) \<longleftrightarrow> (\<exists>v. (i, k, v) \<in> set (fifoList s))"
      proof
        assume "\<exists>v. (i, k, v) \<in> set (list_erase it (fifoList s))"
        then show "\<exists>v. (i, k, v) \<in> set (fifoList s)" by (auto simp: set_list_erase)
      next
        assume "\<exists>v. (i, k, v) \<in> set (fifoList s)"
        then obtain v where v: "(i, k, v) \<in> set (fifoList s)" by blast
        obtain w where w: "(it, key, w) \<in> set (fifoList s)" using Some m by blast
        have "i \<noteq> it" using uniq [OF v, of key w] w False by auto
        with v show "\<exists>v. (i, k, v) \<in> set (list_erase it (fifoList s))"
          by (auto simp: set_list_erase)
      qed
      with False m show ?thesis by simp
    qed
  qed
  moreover have "distinct (map fst (list_erase it (fifoList s)))"
    using d by (rule distinct_list_erase)
  moreover have "\<forall>n \<in> set (list_erase it (fifoList s)). fst n < nextNode s"
    using assms by (auto simp: evodb_inv_def set_list_erase)
  moreover have "dom ((mapCache s)(key := None)) \<inter> setEraseCache s = {}"
    using assms by (auto simp: evodb_inv_def)
  moreover have "finite (setEraseCache s)" using assms by (simp add: evodb_inv_def)
  ultimately show ?thesis
    using Some by (simp add: erase_pending_write_def evodb_inv_def)
qed

lemma erase_pending_write_key: "mapCache (erase_pending_write key s) key = None"
  by (simp add: erase_pending_write_def split: option.splits)

lemma erase_pending_write_fields [simp]:
  "nextNode (erase_pending_write key s) = nextNode s"
  "setEraseCache (erase_pending_write key s) = setEraseCache s"
  "maxCacheSize (erase_pending_write key s) = maxCacheSize s"
  "bFlushOnNextRead (erase_pending_write key s) = bFlushOnNextRead s"
  "store (erase_pending_write key s) = store s"
  by (simp_all add: erase_pending_write_def split: option.splits)

lemma inv_upsert:
  assumes "evodb_inv s"
  shows "evodb_inv (WriteCache_upsert key val s)"
proof -
  define s1 where "s1 = erase_pending_write key s"
  have i1: "evodb_inv s1" using assms by (simp add: s1_def inv_erase_pending_write)
  have k1: "mapCache s1 key = None" by (simp add: s1_def erase_pending_write_key)
  have lt: "\<forall>n \<in> set (fifoList s1). fst n < nextNode s1" using i1 by (simp add: evodb_inv_def)
  have m: "\<And>k i. mapCache s1 k = Some i \<longleftrightarrow> (\<exists>v. (i, k, v) \<in> set (fifoList s1))"
    using i1 by (simp add: evodb_inv_def)
  have nokey: "\<And>i v. (i, key, v) \<notin> set (fifoList s1)" using m k1 by (metis option.distinct(1))
  have fresh: "nextNode s1 \<notin> fst ` set (fifoList s1)" using lt by auto
  have "distinct (map fst (fifoList s1 @ [(nextNode s1, key, val)]))"
    using i1 fresh by (simp add: evodb_inv_def)
  moreover have "\<forall>n \<in> set (fifoList s1 @ [(nextNode s1, key, val)]). fst n < Suc (nextNode s1)"
    using lt by (auto simp: less_Suc_eq)
  moreover have "\<And>k i. ((mapCache s1)(key \<mapsto> nextNode s1)) k = Some i \<longleftrightarrow>
      (\<exists>v. (i, k, v) \<in> set (fifoList s1 @ [(nextNode s1, key, val)]))"
    using m nokey by auto
  moreover have "dom ((mapCache s1)(key \<mapsto> nextNode s1)) \<inter> (setEraseCache s1 - {key}) = {}"
    using i1 by (auto simp: evodb_inv_def)
  moreover have "finite (setEraseCache s1 - {key})" using i1 by (simp add: evodb_inv_def)
  ultimately show ?thesis
    by (simp add: WriteCache_upsert_def Let_def s1_def [symmetric] evodb_inv_def)
qed

lemma inv_evict:
  assumes "evodb_inv s"
  shows "evodb_inv (WriteCache_evict s)"
proof (cases "maxCacheSize s > 0 \<and> card (dom (mapCache s)) > maxCacheSize s")
  case False
  then have "WriteCache_evict s = s" by (auto simp: WriteCache_evict_def)
  then show ?thesis using assms by simp
next
  case True
  show ?thesis
  proof (cases "fifoList s")
    case Nil
    then show ?thesis using assms True by (simp add: WriteCache_evict_def)
  next
    case (Cons oldest rest)
    obtain it k v where o: "oldest = (it, k, v)" by (cases oldest) auto
    have d: "distinct (map fst (fifoList s))" using assms by (simp add: evodb_inv_def)
    have m: "\<And>k i. mapCache s k = Some i \<longleftrightarrow> (\<exists>v. (i, k, v) \<in> set (fifoList s))"
      using assms by (simp add: evodb_inv_def)
    have uniq: "\<And>i k v k' v'. (i, k, v) \<in> set (fifoList s) \<Longrightarrow> (i, k', v') \<in> set (fifoList s) \<Longrightarrow> k' = k \<and> v' = v"
      using inv_node_unique [OF assms] by blast
    have itk: "mapCache s k = Some it" using m Cons o by auto
    have notin: "it \<notin> fst ` set rest" using d Cons o by auto
    have "\<And>k' i. ((mapCache s)(k := None)) k' = Some i \<longleftrightarrow> (\<exists>v. (i, k', v) \<in> set rest)"
    proof -
      fix k' i
      show "((mapCache s)(k := None)) k' = Some i \<longleftrightarrow> (\<exists>v. (i, k', v) \<in> set rest)"
      proof (cases "k' = k")
        case True
        have "\<not> (\<exists>v. (i, k, v) \<in> set rest)"
        proof
          assume "\<exists>v. (i, k, v) \<in> set rest"
          then obtain w where w: "(i, k, w) \<in> set rest" by blast
          then have "mapCache s k = Some i" using m Cons by auto
          then have "i = it" using itk by simp
          with w notin show False by force
        qed
        with True show ?thesis by simp
      next
        case False
        have "(\<exists>v. (i, k', v) \<in> set rest) \<longleftrightarrow> (\<exists>v. (i, k', v) \<in> set (fifoList s))"
          using Cons o False by auto
        with False m show ?thesis by simp
      qed
    qed
    moreover have "distinct (map fst rest)" using d Cons by simp
    moreover have "\<forall>n \<in> set rest. fst n < nextNode s" using assms Cons by (simp add: evodb_inv_def)
    moreover have "dom ((mapCache s)(k := None)) \<inter> setEraseCache s = {}"
      using assms by (auto simp: evodb_inv_def)
    moreover have "finite (setEraseCache s)" using assms by (simp add: evodb_inv_def)
    ultimately show ?thesis
      using True Cons o by (simp add: WriteCache_evict_def evodb_inv_def)
  qed
qed

lemma inv_WriteCache: "evodb_inv s \<Longrightarrow> evodb_inv (WriteCache key val s)"
  by (simp add: WriteCache_def inv_upsert inv_evict)

lemma inv_flag: "evodb_inv (s\<lparr>bFlushOnNextRead := b\<rparr>) = evodb_inv s"
  by (simp add: evodb_inv_def)

lemma inv_EraseCache:
  assumes "evodb_inv s"
  shows "evodb_inv (EraseCache key s)"
proof -
  define s1 where "s1 = erase_pending_write key (s\<lparr>bFlushOnNextRead := True\<rparr>)"
  have i1: "evodb_inv s1" using assms by (simp add: s1_def inv_erase_pending_write inv_flag)
  have k1: "mapCache s1 key = None" by (simp add: s1_def erase_pending_write_key)
  have "dom (mapCache s1) \<inter> insert key (setEraseCache s1) = {}"
    using i1 k1 by (auto simp: evodb_inv_def)
  then show ?thesis
    using i1 by (simp add: EraseCache_def Let_def s1_def [symmetric] evodb_inv_def)
qed

lemma inv_Flush:
  assumes "evodb_inv s"
  shows "evodb_inv (snd (FlushCacheToDisk res s))"
proof (cases "snd (FlushCacheToDisk res s) = s")
  case True
  then show ?thesis using assms by simp
next
  case False
  then have "snd (FlushCacheToDisk res s) =
      s\<lparr>store := WriteBatch (pending_writes s) (setEraseCache s) (store s),
        mapCache := Map.empty, fifoList := [], setEraseCache := {}\<rparr>"
    by (auto simp: FlushCacheToDisk_def split: if_splits)
  then show ?thesis by (simp add: evodb_inv_def)
qed

lemma inv_flush_before_read: "evodb_inv s \<Longrightarrow> evodb_inv (flush_before_read res s)"
  by (simp add: flush_before_read_def inv_Flush inv_flag)

lemma inv_ReadCache: "evodb_inv s \<Longrightarrow> evodb_inv (snd (ReadCache res key s))"
  by (simp add: ReadCache_def Let_def inv_flush_before_read split: option.splits)

lemma inv_ExistsCache: "evodb_inv s \<Longrightarrow> evodb_inv (snd (ExistsCache res key s))"
  by (simp add: ExistsCache_def Let_def inv_flush_before_read)

lemma inv_apply_cache_op: "evodb_inv s \<Longrightarrow> evodb_inv (apply_cache_op s op)"
  by (cases op) (simp_all add: inv_WriteCache inv_EraseCache inv_Flush inv_ReadCache inv_ExistsCache)

lemma inv_run_cache_ops: "evodb_inv s \<Longrightarrow> evodb_inv (run_cache_ops s ops)"
  unfolding run_cache_ops_def
  by (induction ops arbitrary: s) (simp_all add: inv_apply_cache_op)

lemma inv_keys:
  assumes "evodb_inv s"
  shows "(fst \<circ> snd) ` set (fifoList s) = dom (mapCache s)"
proof -
  have m: "\<And>k i. mapCache s k = Some i \<longleftrightarrow> (\<exists>v. (i, k, v) \<in> set (fifoList s))"
    using assms by (simp add: evodb_inv_def)
  show ?thesis
  proof (rule set_eqI)
    fix k
    show "k \<in> (fst \<circ> snd) ` set (fifoList s) \<longleftrightarrow> k \<in> dom (mapCache s)"
    proof
      assume "k \<in> (fst \<circ> snd) ` set (fifoList s)"
      then obtain i v where "(i, k, v) \<in> set (fifoList s)" by force
      then show "k \<in> dom (mapCache s)" using m by blast
    next
      assume "k \<in> dom (mapCache s)"
      then obtain i where "mapCache s k = Some i" by blast
      then obtain v where "(i, k, v) \<in> set (fifoList s)" using m by blast
      then show "k \<in> (fst \<circ> snd) ` set (fifoList s)" by force
    qed
  qed
qed

lemma inv_distinct_keys:
  assumes "evodb_inv s"
  shows "distinct (map (fst \<circ> snd) (fifoList s))"
proof -
  have d: "distinct (map fst (fifoList s))" using assms by (simp add: evodb_inv_def)
  have m: "\<And>k i. mapCache s k = Some i \<longleftrightarrow> (\<exists>v. (i, k, v) \<in> set (fifoList s))"
    using assms by (simp add: evodb_inv_def)
  have "inj_on (fst \<circ> snd) (set (fifoList s))"
  proof (rule inj_onI)
    fix x y assume x: "x \<in> set (fifoList s)" and y: "y \<in> set (fifoList s)"
      and e: "(fst \<circ> snd) x = (fst \<circ> snd) y"
    obtain i k v where xx: "x = (i, k, v)" by (cases x) auto
    obtain j k' w where yy: "y = (j, k', w)" by (cases y) auto
    have kk: "k' = k" using e xx yy by simp
    have "mapCache s k = Some i" using m x xx by blast
    moreover have "mapCache s k = Some j" using m y yy kk by blast
    ultimately have "i = j" by simp
    then show "x = y" using d x y xx yy kk by (metis eq_key_imp_eq_value)
  qed
  moreover have "distinct (fifoList s)" using d by (rule distinct_map [THEN iffD1, THEN conjunct1])
  ultimately show ?thesis by (simp add: distinct_map)
qed

subsection \<open>Flushing\<close>

lemma FlushCacheToDisk_cases:
  "FlushCacheToDisk res s =
     (if mapCache s = Map.empty \<and> setEraseCache s = {} then (True, s)
      else if res then
        (True, s\<lparr>store := WriteBatch (pending_writes s) (setEraseCache s) (store s),
                 mapCache := Map.empty, fifoList := [], setEraseCache := {}\<rparr>)
      else (False, s))"
  by (simp add: FlushCacheToDisk_def)

lemma inv_empty_fifo:
  assumes "evodb_inv s" and "mapCache s = Map.empty"
  shows "fifoList s = []"
proof (cases "fifoList s")
  case Nil then show ?thesis .
next
  case (Cons n ns)
  obtain i k v where "n = (i, k, v)" by (cases n) auto
  then have "(i, k, v) \<in> set (fifoList s)" using Cons by simp
  then have "mapCache s k = Some i" using assms(1) unfolding evodb_inv_def by blast
  then show ?thesis using assms(2) by simp
qed

lemma WriteBatch_nothing: "WriteBatch Map.empty {} st = st"
  by (simp add: WriteBatch_def restrict_map_def)

lemma pending_writes_empty: "mapCache s = Map.empty \<Longrightarrow> pending_writes s = Map.empty"
  by (simp add: pending_writes_def)

text \<open>
  Claim C3. In every state of the cache (one that satisfies the representation
  invariant), \<^verbatim>\<open>FlushCacheToDisk\<close> hands the pending writes and the pending erases to the
  store as one batch. When it returns \<^verbatim>\<open>true\<close>, the pending-write map, the FIFO list and
  the pending-erase set are empty and the store is the old store with the whole batch
  applied. When it returns \<^verbatim>\<open>false\<close>, the state is the state before the call, pending
  structures and store alike, so a second call flushes the same batch. It returns
  \<^verbatim>\<open>false\<close> exactly when there was something to flush and the store refused the batch.
\<close>

theorem FlushCacheToDisk_all_or_nothing:
  assumes "evodb_inv s" and "FlushCacheToDisk res s = (r, s')"
  shows "(if r
          then mapCache s' = Map.empty \<and> fifoList s' = [] \<and> setEraseCache s' = {} \<and>
               store s' = WriteBatch (pending_writes s) (setEraseCache s) (store s)
          else s' = s) \<and>
         (r = False \<longleftrightarrow> res = False \<and> \<not> (mapCache s = Map.empty \<and> setEraseCache s = {}))"
proof (cases "mapCache s = Map.empty \<and> setEraseCache s = {}")
  case True
  then have "r = True" "s' = s" using assms(2) by (simp_all add: FlushCacheToDisk_def)
  moreover have "fifoList s = []" using assms(1) True by (simp add: inv_empty_fifo)
  ultimately show ?thesis using True by (simp add: pending_writes_empty WriteBatch_nothing)
next
  case False
  show ?thesis
  proof (cases res)
    case True
    then have "r = True"
      "s' = s\<lparr>store := WriteBatch (pending_writes s) (setEraseCache s) (store s),
                 mapCache := Map.empty, fifoList := [], setEraseCache := {}\<rparr>"
      using assms(2) False by (auto simp: FlushCacheToDisk_def)
    then show ?thesis using True by simp
  next
    case f: False
    then have "r = False" "s' = s" using assms(2) False by (auto simp: FlushCacheToDisk_def)
    then show ?thesis using f False by simp
  qed
qed

lemma c3_state_eval:
  "c3_state = \<lparr>mapCache = [1 \<mapsto> 0], fifoList = [(0, 1, 10)], nextNode = 1, setEraseCache = {2},
      maxCacheSize = 0, bFlushOnNextRead = True, store = [2 \<mapsto> 20]\<rparr>"
  by (simp add: c3_state_def run_cache_ops_def CEvoDB_init_def WriteCache_def WriteCache_upsert_def
      WriteCache_evict_def EraseCache_def erase_pending_write_def Let_def)

theorem FlushCacheToDisk_all_or_nothing_witness:
  "evodb_inv c3_state \<and>
   FlushCacheToDisk False c3_state = (False, c3_state) \<and>
   fst (FlushCacheToDisk True c3_state) = True \<and>
   mapCache (snd (FlushCacheToDisk True c3_state)) = Map.empty \<and>
   fifoList (snd (FlushCacheToDisk True c3_state)) = [] \<and>
   setEraseCache (snd (FlushCacheToDisk True c3_state)) = {} \<and>
   store (snd (FlushCacheToDisk True c3_state)) 1 = Some 10 \<and>
   store (snd (FlushCacheToDisk True c3_state)) 2 = None"
proof -
  have i: "evodb_inv c3_state"
    unfolding c3_state_def by (rule inv_run_cache_ops [OF inv_init])
  have ne: "\<not> (mapCache c3_state = Map.empty \<and> setEraseCache c3_state = {})"
    by (simp add: c3_state_eval)
  obtain r s' where f: "FlushCacheToDisk False c3_state = (r, s')" by force
  obtain r2 s2 where t: "FlushCacheToDisk True c3_state = (r2, s2)" by force
  have w: "WriteBatch (pending_writes c3_state) (setEraseCache c3_state) (store c3_state) 1 = Some 10"
    "WriteBatch (pending_writes c3_state) (setEraseCache c3_state) (store c3_state) 2 = None"
    by (simp_all add: c3_state_eval WriteBatch_def pending_writes_def node_value_def restrict_map_def map_add_def)
  from FlushCacheToDisk_all_or_nothing [OF i f] ne have "r = False" "s' = c3_state" by auto
  moreover from FlushCacheToDisk_all_or_nothing [OF i t] ne have "r2 = True 
     \<and> mapCache s2 = Map.empty \<and> fifoList s2 = [] \<and> setEraseCache s2 = {} \<and>
               store s2 = WriteBatch (pending_writes c3_state) (setEraseCache c3_state) (store c3_state)" by auto
  ultimately show ?thesis using i f t w by simp
qed

subsection \<open>Pending writes and pending erases never overlap\<close>

text \<open>
  Claim C10. After every sequence of \<^verbatim>\<open>WriteCache\<close>, \<^verbatim>\<open>EraseCache\<close> and
  \<^verbatim>\<open>FlushCacheToDisk\<close> calls (and of the reads that flush) on a fresh cache, whatever
  the store answers to each flush, no key is in both the pending-write map and the
  pending-erase set, and the FIFO list and the pending-write map hold the same keys, each
  once. \<^verbatim>\<open>WriteCache(k, v)\<close> leaves \<open>k\<close> out of the pending-erase set; \<^verbatim>\<open>EraseCache(k)\<close>
  leaves no pending write for \<open>k\<close> and records the erase.
\<close>

theorem cache_pending_sets_consistent:
  "dom (mapCache (run_cache_ops (CEvoDB_init m st) ops)) \<inter>
     setEraseCache (run_cache_ops (CEvoDB_init m st) ops) = {} \<and>
   (fst \<circ> snd) ` set (fifoList (run_cache_ops (CEvoDB_init m st) ops)) =
     dom (mapCache (run_cache_ops (CEvoDB_init m st) ops)) \<and>
   distinct (map (fst \<circ> snd) (fifoList (run_cache_ops (CEvoDB_init m st) ops))) \<and>
   key \<notin> setEraseCache (WriteCache key val (run_cache_ops (CEvoDB_init m st) ops)) \<and>
   mapCache (EraseCache key (run_cache_ops (CEvoDB_init m st) ops)) key = None \<and>
   key \<in> setEraseCache (EraseCache key (run_cache_ops (CEvoDB_init m st) ops))"
proof -
  define s where "s = run_cache_ops (CEvoDB_init m st) ops"
  have i: "evodb_inv s" unfolding s_def by (rule inv_run_cache_ops [OF inv_init])
  have 1: "dom (mapCache s) \<inter> setEraseCache s = {}" using i by (simp add: evodb_inv_def)
  have 2: "(fst \<circ> snd) ` set (fifoList s) = dom (mapCache s)" using i by (rule inv_keys)
  have 3: "distinct (map (fst \<circ> snd) (fifoList s))" using i by (rule inv_distinct_keys)
  have 4: "key \<notin> setEraseCache (WriteCache key val s)"
    by (simp add: WriteCache_def WriteCache_evict_def WriteCache_upsert_def Let_def split: list.splits)
  have 5: "mapCache (EraseCache key s) key = None"
    by (simp add: EraseCache_def Let_def erase_pending_write_key)
  have 6: "key \<in> setEraseCache (EraseCache key s)"
    by (simp add: EraseCache_def Let_def)
  show ?thesis using 1 2 3 4 5 6 unfolding s_def by blast
qed

subsection \<open>Eviction\<close>

lemma WriteCache_upsert_fifo_nonempty: "fifoList (WriteCache_upsert key val s) \<noteq> []"
  by (simp add: WriteCache_upsert_def Let_def)

lemma WriteCache_upsert_fields:
  "maxCacheSize (WriteCache_upsert key val s) = maxCacheSize s"
  "store (WriteCache_upsert key val s) = store s"
  by (simp_all add: WriteCache_upsert_def Let_def)

lemma erase_pending_write_store_indep:
  "erase_pending_write key (s\<lparr>store := st\<rparr>) = (erase_pending_write key s)\<lparr>store := st\<rparr>"
  by (simp add: erase_pending_write_def split: option.splits)

lemma WriteCache_upsert_store_indep:
  "WriteCache_upsert key val (s\<lparr>store := st\<rparr>) = (WriteCache_upsert key val s)\<lparr>store := st\<rparr>"
  by (simp add: WriteCache_upsert_def Let_def erase_pending_write_store_indep)

lemma WriteCache_evict_store_indep:
  "WriteCache_evict (s\<lparr>store := st\<rparr>) = (WriteCache_evict s)\<lparr>store := st\<rparr>"
  by (simp add: WriteCache_evict_def split: list.splits)

lemma WriteCache_evict_store: "store (WriteCache_evict s) = store s"
  by (simp add: WriteCache_evict_def split: list.splits)

text \<open>
  Claim C4, as amended. For \<^verbatim>\<open>WriteCache(k, v)\<close> on a cache with maximum size \<open>m > 0\<close>:
  if after the upsert the number of pending writes alone (the size of the pending-write
  map; pending erases are not counted) exceeds \<open>m\<close>, the front node of the FIFO list is
  removed from the list and its key from the map, and nothing else changes; otherwise the
  result is the upsert. In both cases the store is neither read nor written: it is the
  same after the call, and the call commutes with any change of the store.
\<close>

theorem WriteCache_evicts_oldest:
  assumes "maxCacheSize s = m" and "0 < m"
  shows "(if m < card (dom (mapCache (WriteCache_upsert key val s)))
          then \<exists>oldest rest.
                 fifoList (WriteCache_upsert key val s) = oldest # rest \<and>
                 WriteCache key val s =
                   (WriteCache_upsert key val s)
                     \<lparr>fifoList := rest,
                      mapCache := (mapCache (WriteCache_upsert key val s))(fst (snd oldest) := None)\<rparr>
          else WriteCache key val s = WriteCache_upsert key val s) \<and>
         store (WriteCache key val s) = store s \<and>
         WriteCache key val (s\<lparr>store := st\<rparr>) = (WriteCache key val s)\<lparr>store := st\<rparr>"
proof -
  define u where "u = WriteCache_upsert key val s"
  have mu: "maxCacheSize u = m" using assms(1) by (simp add: u_def WriteCache_upsert_fields)
  obtain oldest rest where l: "fifoList u = oldest # rest"
    using WriteCache_upsert_fifo_nonempty [of key val s] by (cases "fifoList u") (auto simp: u_def)
  have 1: "m < card (dom (mapCache u)) \<Longrightarrow>
      WriteCache key val s = u\<lparr>fifoList := rest, mapCache := (mapCache u)(fst (snd oldest) := None)\<rparr>"
    using mu assms(2) l by (simp add: WriteCache_def u_def [symmetric] WriteCache_evict_def)
  have 2: "\<not> m < card (dom (mapCache u)) \<Longrightarrow> WriteCache key val s = u"
    using mu by (simp add: WriteCache_def u_def [symmetric] WriteCache_evict_def)
  have 3: "store (WriteCache key val s) = store s"
    by (simp add: WriteCache_def WriteCache_evict_store WriteCache_upsert_fields)
  have 4: "WriteCache key val (s\<lparr>store := st\<rparr>) = (WriteCache key val s)\<lparr>store := st\<rparr>"
    by (simp add: WriteCache_def WriteCache_upsert_store_indep WriteCache_evict_store_indep)
  show ?thesis using 1 2 3 4 l unfolding u_def [symmetric] by auto
qed

text \<open>
  The claim as stated counts pending writes and pending erases together. That fails:
  with \<open>m = 2\<close>, two pending erases (keys 2 and 3) and one pending write (key 1),
  \<^verbatim>\<open>WriteCache(4, 40)\<close> brings the combined count to 4, above \<open>m\<close>, and evicts nothing:
  the front node, of key 1, is still in the list and in the map.
\<close>

lemma c4_state_eval:
  "c4_state = \<lparr>mapCache = [1 \<mapsto> 0], fifoList = [(0, 1, 10)], nextNode = 1, setEraseCache = {3, 2},
      maxCacheSize = 2, bFlushOnNextRead = True, store = Map.empty\<rparr>"
  by (simp add: c4_state_def run_cache_ops_def CEvoDB_init_def WriteCache_def WriteCache_upsert_def
      WriteCache_evict_def EraseCache_def erase_pending_write_def Let_def)

lemma c4_upsert_eval:
  "WriteCache_upsert 4 40 c4_state = \<lparr>mapCache = [1 \<mapsto> 0, 4 \<mapsto> 1], fifoList = [(0, 1, 10), (1, 4, 40)],
      nextNode = 2, setEraseCache = {3, 2},
      maxCacheSize = 2, bFlushOnNextRead = True, store = Map.empty\<rparr>"
  by (simp add: c4_state_eval WriteCache_upsert_def erase_pending_write_def Let_def)

theorem WriteCache_combined_count_counterexample:
  "0 < maxCacheSize c4_state \<and>
   maxCacheSize c4_state <
     card (dom (mapCache (WriteCache_upsert 4 40 c4_state))) +
     card (setEraseCache (WriteCache_upsert 4 40 c4_state)) \<and>
   fifoList (WriteCache_upsert 4 40 c4_state) = [(0, 1, 10), (1, 4, 40)] \<and>
   fifoList (WriteCache 4 40 c4_state) = [(0, 1, 10), (1, 4, 40)] \<and>
   mapCache (WriteCache 4 40 c4_state) 1 = Some 0"
  by (simp add: WriteCache_def c4_upsert_eval WriteCache_evict_def) (simp add: c4_state_eval)

lemma c4_state2_eval:
  "c4_state2 = \<lparr>mapCache = [1 \<mapsto> 0, 2 \<mapsto> 1], fifoList = [(0, 1, 10), (1, 2, 20)], nextNode = 2, setEraseCache = {},
      maxCacheSize = 2, bFlushOnNextRead = False, store = Map.empty\<rparr>"
  by (simp add: c4_state2_def run_cache_ops_def CEvoDB_init_def WriteCache_def WriteCache_upsert_def
      WriteCache_evict_def EraseCache_def erase_pending_write_def Let_def)

lemma c4_upsert2_eval:
  "WriteCache_upsert 3 30 c4_state2 = \<lparr>mapCache = [1 \<mapsto> 0, 2 \<mapsto> 1, 3 \<mapsto> 2], fifoList = [(0, 1, 10), (1, 2, 20), (2, 3, 30)],
      nextNode = 3, setEraseCache = {},
      maxCacheSize = 2, bFlushOnNextRead = False, store = Map.empty\<rparr>"
  by (simp add: c4_state2_eval WriteCache_upsert_def erase_pending_write_def Let_def)

theorem WriteCache_evicts_oldest_witness:
  "maxCacheSize c4_state2 = 2 \<and> (0::nat) < 2 \<and>
   2 < card (dom (mapCache (WriteCache_upsert 3 30 c4_state2))) \<and>
   fifoList (WriteCache 3 30 c4_state2) = [(1, 2, 20), (2, 3, 30)] \<and>
   mapCache (WriteCache 3 30 c4_state2) 1 = None \<and>
   mapCache (WriteCache 3 30 c4_state2) 3 = Some 2 \<and>
   store (WriteCache 3 30 c4_state2) = store c4_state2"
proof -
  have m: "maxCacheSize c4_state2 = 2" by (simp add: c4_state2_eval)
  have c: "2 < card (dom (mapCache (WriteCache_upsert 3 30 c4_state2)))"
    by (simp add: c4_upsert2_eval)
  have z: "(0::nat) < 2" by simp
  have "(\<exists>oldest rest.
          fifoList (WriteCache_upsert 3 30 c4_state2) = oldest # rest \<and>
          WriteCache 3 30 c4_state2 =
            (WriteCache_upsert 3 30 c4_state2)
              \<lparr>fifoList := rest,
               mapCache := (mapCache (WriteCache_upsert 3 30 c4_state2))(fst (snd oldest) := None)\<rparr>) \<and>
        store (WriteCache 3 30 c4_state2) = store c4_state2"
    using WriteCache_evicts_oldest [OF m z, where key = 3 and val = 30 and st = Map.empty] c
    by simp
  then obtain oldest rest where
    "fifoList (WriteCache_upsert 3 30 c4_state2) = oldest # rest"
    "WriteCache 3 30 c4_state2 =
       (WriteCache_upsert 3 30 c4_state2)
         \<lparr>fifoList := rest,
          mapCache := (mapCache (WriteCache_upsert 3 30 c4_state2))(fst (snd oldest) := None)\<rparr>"
    "store (WriteCache 3 30 c4_state2) = store c4_state2"
    by blast
  then show ?thesis using m c by (auto simp: c4_upsert2_eval)
qed

subsection \<open>Reading a key after erasing it\<close>

text \<open>
  \<^verbatim>\<open>EraseCache(k)\<close> arms the flush before the next read. \<^verbatim>\<open>ReadCache(k)\<close> right after
  it answers not-found when that flush succeeds; when the flush fails, the pending erase
  stays where it is, \<^verbatim>\<open>ReadCache\<close> does not look at it, and the answer is whatever the
  store still holds for \<open>k\<close>.
\<close>

lemma ReadCache_after_EraseCache:
  "fst (ReadCache res key (EraseCache key s)) = (if res then None else store s key)"
proof -
  define e where "e = EraseCache key s"
  have f: "bFlushOnNextRead e" "mapCache e key = None" "key \<in> setEraseCache e" "store e = store s"
    by (simp_all add: e_def EraseCache_def Let_def erase_pending_write_key)
  have ne: "setEraseCache (e\<lparr>bFlushOnNextRead := False\<rparr>) \<noteq> {}" using f(3) by auto
  show ?thesis
  proof (cases res)
    case True
    have "flush_before_read True e =
       e\<lparr>bFlushOnNextRead := False,
         store := WriteBatch (pending_writes (e\<lparr>bFlushOnNextRead := False\<rparr>)) (setEraseCache e) (store e),
         mapCache := Map.empty, fifoList := [], setEraseCache := {}\<rparr>"
      using f(1) ne by (simp add: flush_before_read_def FlushCacheToDisk_def)
    moreover have "WriteBatch w (setEraseCache e) (store e) key = None" for w
      using f(3) by (simp add: WriteBatch_def)
    ultimately show ?thesis using True by (simp add: ReadCache_def e_def [symmetric])
  next
    case False
    have "flush_before_read False e = e\<lparr>bFlushOnNextRead := False\<rparr>"
      using f(1) ne by (simp add: flush_before_read_def FlushCacheToDisk_def)
    then show ?thesis using False f by (simp add: ReadCache_def e_def [symmetric])
  qed
qed

text \<open>
  Claim C2. A store that holds \<open>1 \<mapsto> 7\<close>, then \<^verbatim>\<open>EraseCache(1)\<close>, then \<^verbatim>\<open>ReadCache(1)\<close>
  whose flush fails: key 1 has a pending erase before and after the read, and the read
  returns the value 7 of the store. With a flush that succeeds the same read returns
  not-found.
\<close>

theorem ReadCache_stale_after_failed_flush:
  "1 \<in> setEraseCache c2_state \<and>
   fst (ReadCache False 1 c2_state) = Some 7 \<and>
   1 \<in> setEraseCache (snd (ReadCache False 1 c2_state)) \<and>
   fst (ReadCache True 1 c2_state) = None"
  by (simp add: c2_state_def EraseCache_def CEvoDB_init_def erase_pending_write_def Let_def
      ReadCache_def flush_before_read_def FlushCacheToDisk_def WriteBatch_def)

section \<open>Properties of the recovered-signature store\<close>

subsection \<open>Batches, writes and truncation\<close>

lemma map_of_apply_batch_op:
  "map_of (apply_batch_op kv op) =
     (case op of BWrite k v \<Rightarrow> (map_of kv)(k \<mapsto> v) | BErase k \<Rightarrow> (map_of kv)(k := None))"
  by (cases op) (simp_all add: update_conv' delete_conv')

lemma db_WriteBatch_Nil [simp]: "db_WriteBatch [] kv = kv"
  by (simp add: db_WriteBatch_def)

lemma db_WriteBatch_Cons [simp]: "db_WriteBatch (op # batch) kv = db_WriteBatch batch (apply_batch_op kv op)"
  by (simp add: db_WriteBatch_def)

lemma db_WriteBatch_append: "db_WriteBatch (b1 @ b2) kv = db_WriteBatch b2 (db_WriteBatch b1 kv)"
  by (simp add: db_WriteBatch_def)

lemma map_of_write [simp]: "map_of (apply_batch_op kv (BWrite k v)) = (map_of kv)(k \<mapsto> v)"
  by (simp add: update_conv')

lemma map_of_erase [simp]: "map_of (apply_batch_op kv (BErase k)) = (map_of kv)(k := None)"
  by (simp add: delete_conv')

lemma WriteRecoveredSig_db:
  "map_of (db (WriteRecoveredSig bsh now recSig d)) =
     (map_of (db d))
       (K_rs_r (id' recSig) \<mapsto> V_recSig recSig,
        K_rs_r_msg (id' recSig) (msgHash recSig) \<mapsto> V_uint32 (ucast now),
        K_rs_h (GetHash recSig) \<mapsto> V_uint256 (id' recSig),
        K_rs_s (BuildSignHash bsh recSig) \<mapsto> V_uint8 1,
        K_rs_t (ucast now) (id' recSig) \<mapsto> V_uint8 1)"
  by (simp add: WriteRecoveredSig_def Let_def del: apply_batch_op.simps)

lemma WriteRecoveredSig_caches:
  "hasSigForIdCache (WriteRecoveredSig bsh now recSig d) = (hasSigForIdCache d)(id' recSig \<mapsto> True)"
  "hasSigForSessionCache (WriteRecoveredSig bsh now recSig d) =
     (hasSigForSessionCache d)(BuildSignHash bsh recSig \<mapsto> True)"
  "hasSigForHashCache (WriteRecoveredSig bsh now recSig d) = (hasSigForHashCache d)(GetHash recSig \<mapsto> True)"
  by (simp_all add: WriteRecoveredSig_def Let_def)

lemma ReadRecoveredSig_map_of:
  "ReadRecoveredSig i d = (case map_of (db d) (K_rs_r i) of Some (V_recSig r) \<Rightarrow> Some r | _ \<Rightarrow> None)"
  by (simp add: ReadRecoveredSig_def db_Read_recSig_def)

lemma TruncateRecoveredSig_Some:
  assumes "ReadRecoveredSig i d = Some recSig"
  shows "map_of (db (TruncateRecoveredSig bsh i d)) =
           (map_of (db d))
             (K_rs_r (id' recSig) := None,
              K_rs_r_msg (id' recSig) (msgHash recSig) := None,
              K_rs_s (BuildSignHash bsh recSig) := None)"
    and "hasSigForIdCache (TruncateRecoveredSig bsh i d) = (hasSigForIdCache d)(id' recSig := None)"
    and "hasSigForSessionCache (TruncateRecoveredSig bsh i d) =
           (hasSigForSessionCache d)(BuildSignHash bsh recSig := None)"
    and "hasSigForHashCache (TruncateRecoveredSig bsh i d) = hasSigForHashCache d"
  using assms
  by (simp_all add: TruncateRecoveredSig_def RemoveRecoveredSig_batch_def Let_def
      del: apply_batch_op.simps)

lemma TruncateRecoveredSig_None:
  "ReadRecoveredSig i d = None \<Longrightarrow> TruncateRecoveredSig bsh i d = d"
  by (simp add: TruncateRecoveredSig_def RemoveRecoveredSig_batch_def)

text \<open>
  Writing a recovered signature and truncating its id at once: the id-keyed record, the
  (id, message hash) key and the sign-hash key are gone, the content-hash key and its
  cache entry are still there.
\<close>

lemma WriteRecoveredSig_then_Truncate:
  "fst (HasRecoveredSigForId (id' recSig)
          (TruncateRecoveredSig bsh (id' recSig) (WriteRecoveredSig bsh now recSig d))) = False \<and>
   ReadRecoveredSig (id' recSig)
          (TruncateRecoveredSig bsh (id' recSig) (WriteRecoveredSig bsh now recSig d)) = None \<and>
   HasRecoveredSig (id' recSig) (msgHash recSig)
          (TruncateRecoveredSig bsh (id' recSig) (WriteRecoveredSig bsh now recSig d)) = False \<and>
   fst (HasRecoveredSigForSession (BuildSignHash bsh recSig)
          (TruncateRecoveredSig bsh (id' recSig) (WriteRecoveredSig bsh now recSig d))) = False \<and>
   fst (HasRecoveredSigForHash (GetHash recSig)
          (TruncateRecoveredSig bsh (id' recSig) (WriteRecoveredSig bsh now recSig d))) = True \<and>
   db_Read_uint256 (db (TruncateRecoveredSig bsh (id' recSig) (WriteRecoveredSig bsh now recSig d)))
          (K_rs_h (GetHash recSig)) = Some (id' recSig) \<and>
   hasSigForHashCache (TruncateRecoveredSig bsh (id' recSig) (WriteRecoveredSig bsh now recSig d))
          (GetHash recSig) = Some True"
proof -
  define d1 where "d1 = WriteRecoveredSig bsh now recSig d"
  define d2 where "d2 = TruncateRecoveredSig bsh (id' recSig) d1"
  have r: "ReadRecoveredSig (id' recSig) d1 = Some recSig"
    by (simp add: d1_def ReadRecoveredSig_map_of WriteRecoveredSig_db)
  note t = TruncateRecoveredSig_Some [OF r, where bsh = bsh, folded d2_def]
  have m1: "map_of (db d2) (K_rs_r (id' recSig)) = None" by (simp add: t)
  have m2: "map_of (db d2) (K_rs_r_msg (id' recSig) (msgHash recSig)) = None" by (simp add: t)
  have m3: "map_of (db d2) (K_rs_s (BuildSignHash bsh recSig)) = None" by (simp add: t)
  have m4: "map_of (db d2) (K_rs_h (GetHash recSig)) = Some (V_uint256 (id' recSig))"
    by (simp add: t d1_def WriteRecoveredSig_db)
  have c1: "hasSigForIdCache d2 (id' recSig) = None" by (simp add: t)
  have c2: "hasSigForSessionCache d2 (BuildSignHash bsh recSig) = None" by (simp add: t)
  have c3: "hasSigForHashCache d2 (GetHash recSig) = Some True"
    by (simp add: t d1_def WriteRecoveredSig_caches)
  have "fst (HasRecoveredSigForId (id' recSig) d2) = False"
    using c1 m1 by (simp add: HasRecoveredSigForId_def db_Exists_def)
  moreover have "ReadRecoveredSig (id' recSig) d2 = None"
    using m1 by (simp add: ReadRecoveredSig_map_of)
  moreover have "HasRecoveredSig (id' recSig) (msgHash recSig) d2 = False"
    using m2 by (simp add: HasRecoveredSig_def db_Exists_def)
  moreover have "fst (HasRecoveredSigForSession (BuildSignHash bsh recSig) d2) = False"
    using c2 m3 by (simp add: HasRecoveredSigForSession_def db_Exists_def)
  moreover have "fst (HasRecoveredSigForHash (GetHash recSig) d2) = True"
    using c3 by (simp add: HasRecoveredSigForHash_def)
  moreover have "db_Read_uint256 (db d2) (K_rs_h (GetHash recSig)) = Some (id' recSig)"
    using m4 by (simp add: db_Read_uint256_def)
  ultimately show ?thesis using c3 unfolding d2_def d1_def by blast
qed

subsection \<open>The aging sweep\<close>

text \<open>
  The scan collects exactly the time keys below \<^verbatim>\<open>endTime\<close>. The removal loop reads the
  store while its erasures are pending in the batch, and writes the batch out when it
  grows large; either way an id-keyed record is gone at the end exactly when its id was
  scanned.
\<close>

lemma set_rs_t_keys: "set (rs_t_keys kv) = {k. map_of kv (K_rs_t (fst k) (snd k)) \<noteq> None}"
proof -
  have "set (concat (map (rs_t_key \<circ> fst) kv)) = {k. K_rs_t (fst k) (snd k) \<in> fst ` set kv}"
  proof (induction kv)
    case Nil
    then show ?case by simp
  next
    case (Cons a kv)
    obtain k v where a: "a = (k, v)" by (cases a) auto
    show ?case using Cons a by (cases k) auto
  qed
  then show ?thesis by (auto simp: rs_t_keys_def map_of_eq_None_iff)
qed

lemma sorted_rs_t_keys: "sorted (rs_t_keys kv)"
  by (simp add: rs_t_keys_def)

lemma takeWhile_sorted_time:
  fixes xs :: "(uint32 \<times> uint256) list"
  assumes "sorted xs"
  shows "set (takeWhile (\<lambda>k. fst k < e) xs) = {k \<in> set xs. fst k < e}"
  using assms
proof (induction xs)
  case Nil
  then show ?case by simp
next
  case (Cons x xs)
  show ?case
  proof (cases "fst x < e")
    case True
    then show ?thesis using Cons by auto
  next
    case False
    have "\<forall>y \<in> set xs. \<not> fst y < e"
    proof
      fix y assume "y \<in> set xs"
      then have "x \<le> y" using Cons.prems by auto
      then have "fst x \<le> fst y" by (auto simp: less_eq_prod_def)
      then show "\<not> fst y < e" using False by auto
    qed
    then show ?thesis using False by auto
  qed
qed

lemma batch_view_Nil: "batch_view ([], d) = map_of (db d)"
  by (simp add: batch_view_def)

lemma RemoveRecoveredSig_batch_None:
  "ReadRecoveredSig e (snd bd) = None \<Longrightarrow> RemoveRecoveredSig_batch bsh e h t bd = bd"
  by (simp add: RemoveRecoveredSig_batch_def)

lemma RemoveRecoveredSig_batch_Some:
  assumes "ReadRecoveredSig e (snd bd) = Some r"
  shows "db (snd (RemoveRecoveredSig_batch bsh e True False bd)) = db (snd bd)"
    and "batch_view (RemoveRecoveredSig_batch bsh e True False bd) =
           (batch_view bd)
             (K_rs_r (id' r) := None, K_rs_r_msg (id' r) (msgHash r) := None,
              K_rs_h (GetHash r) := None, K_rs_s (BuildSignHash bsh r) := None)"
  using assms
  by (simp_all add: RemoveRecoveredSig_batch_def Let_def batch_view_def db_WriteBatch_append
      del: apply_batch_op.simps)

lemma ReadRecoveredSig_read_view: "ReadRecoveredSig e d = read_view (map_of (db d)) e"
  by (simp add: read_view_def ReadRecoveredSig_map_of)

lemma cleanup_step:
  fixes bsh e0 bd
  defines "bd1 \<equiv> RemoveRecoveredSig_batch bsh e0 True False bd"
  assumes sub: "\<forall>k. batch_view bd k \<noteq> None \<longrightarrow> batch_view bd k = map_of (db (snd bd)) k"
      and wf: "recsig_db_wf (db (snd bd))"
  shows "db (snd bd1) = db (snd bd)"
    and "\<forall>k. batch_view bd1 k \<noteq> None \<longrightarrow> batch_view bd1 k = batch_view bd k"
    and "read_view (batch_view bd1) e = (if e = e0 then None else read_view (batch_view bd) e)"
    and "batch_view bd1 (K_rs_t t i) = batch_view bd (K_rs_t t i)"
proof -
  show "db (snd bd1) = db (snd bd)"
    by (cases "ReadRecoveredSig e0 (snd bd)")
       (simp_all add: bd1_def RemoveRecoveredSig_batch_None RemoveRecoveredSig_batch_Some)
  show "\<forall>k. batch_view bd1 k \<noteq> None \<longrightarrow> batch_view bd1 k = batch_view bd k"
    by (cases "ReadRecoveredSig e0 (snd bd)")
       (simp_all add: bd1_def RemoveRecoveredSig_batch_None RemoveRecoveredSig_batch_Some)
  show "batch_view bd1 (K_rs_t t i) = batch_view bd (K_rs_t t i)"
    by (cases "ReadRecoveredSig e0 (snd bd)")
       (simp_all add: bd1_def RemoveRecoveredSig_batch_None RemoveRecoveredSig_batch_Some)
  show "read_view (batch_view bd1) e = (if e = e0 then None else read_view (batch_view bd) e)"
  proof (cases "ReadRecoveredSig e0 (snd bd)")
    case None
    then have same: "bd1 = bd" by (simp add: bd1_def RemoveRecoveredSig_batch_None)
    have "read_view (batch_view bd) e0 = None"
    proof (cases "batch_view bd (K_rs_r e0)")
      case None
      then show ?thesis by (simp add: read_view_def)
    next
      case (Some v)
      then have "map_of (db (snd bd)) (K_rs_r e0) = Some v" using sub by (metis option.distinct(1))
      then have "read_view (map_of (db (snd bd))) e0 = read_view (batch_view bd) e0"
        using Some by (simp add: read_view_def)
      then show ?thesis using None by (simp add: ReadRecoveredSig_read_view)
    qed
    then show ?thesis using same by simp
  next
    case (Some r)
    then have "map_of (db (snd bd)) (K_rs_r e0) = Some (V_recSig r)"
      by (auto simp: ReadRecoveredSig_map_of split: option.splits dbval.splits)
    then have i: "id' r = e0" using wf by (simp add: recsig_db_wf_def)
    show ?thesis
      using i by (simp add: bd1_def RemoveRecoveredSig_batch_Some [OF Some] read_view_def)
  qed
qed

lemma cleanup_remove_loop_view:
  assumes "\<forall>k. batch_view bd k \<noteq> None \<longrightarrow> batch_view bd k = map_of (db (snd bd)) k"
      and "recsig_db_wf (db (snd bd))"
  shows "read_view (batch_view (cleanup_remove_loop bsh est es bd)) e =
           (if e \<in> set es then None else read_view (batch_view bd) e) \<and>
         batch_view (cleanup_remove_loop bsh est es bd) (K_rs_t t i) = batch_view bd (K_rs_t t i)"
  using assms
proof (induction es arbitrary: bd)
  case Nil
  then show ?case by simp
next
  case (Cons e0 es)
  define bd1 where "bd1 = RemoveRecoveredSig_batch bsh e0 True False bd"
  define bd2 where "bd2 = (if est (fst bd1) \<ge> 2 ^ 24
      then ([], (snd bd1)\<lparr>db := db_WriteBatch (fst bd1) (db (snd bd1))\<rparr>) else bd1)"
  note st = cleanup_step [OF Cons.prems, of bsh e0, folded bd1_def]
  have v2: "batch_view bd2 = batch_view bd1"
    by (simp add: bd2_def batch_view_def)
  have sub1: "\<forall>k. batch_view bd1 k \<noteq> None \<longrightarrow> batch_view bd1 k = map_of (db (snd bd)) k"
    using st(2) Cons.prems(1) by metis
  have sub2: "\<forall>k. batch_view bd2 k \<noteq> None \<longrightarrow> batch_view bd2 k = map_of (db (snd bd2)) k"
  proof (cases "est (fst bd1) \<ge> 2 ^ 24")
    case True
    then show ?thesis by (simp add: bd2_def batch_view_def)
  next
    case False
    then show ?thesis using sub1 st(1) by (simp add: bd2_def)
  qed
  have wf2: "recsig_db_wf (db (snd bd2))"
  proof (cases "est (fst bd1) \<ge> 2 ^ 24")
    case True
    then have "map_of (db (snd bd2)) = batch_view bd1" by (simp add: bd2_def batch_view_def)
    then show ?thesis using sub1 Cons.prems(2) unfolding recsig_db_wf_def
      by (metis option.distinct(1))
  next
    case False
    then show ?thesis using Cons.prems(2) st(1) by (simp add: bd2_def)
  qed
  have loop: "cleanup_remove_loop bsh est (e0 # es) bd = cleanup_remove_loop bsh est es bd2"
    by (simp add: bd1_def bd2_def Let_def)
  show ?case
    unfolding loop
    using Cons.IH [OF sub2 wf2] st(3) [of e] st(4) [of t i]
    by (cases "e = e0") (simp_all add: v2)
qed

lemma CleanupOldRecoveredSigs_view:
  fixes now maxAge
  defines "endTime \<equiv> cleanup_endTime now maxAge"
  assumes wf: "recsig_db_wf (db d)"
  shows "ReadRecoveredSig e (CleanupOldRecoveredSigs bsh est now maxAge d) =
           (if \<exists>t. db_Exists (db d) (K_rs_t t e) \<and> t < endTime then None
            else ReadRecoveredSig e d)"
    and "db_Exists (db (CleanupOldRecoveredSigs bsh est now maxAge d)) (K_rs_t t i) \<longleftrightarrow>
           db_Exists (db d) (K_rs_t t i) \<and> \<not> t < endTime"
proof -
  define toDelete2 where "toDelete2 = takeWhile (\<lambda>k. fst k < endTime) (rs_t_keys (db d))"
  define toDelete where "toDelete = map snd toDelete2"
  have s2: "set toDelete2 = {k. map_of (db d) (K_rs_t (fst k) (snd k)) \<noteq> None \<and> fst k < endTime}"
    unfolding toDelete2_def
    by (simp add: takeWhile_sorted_time [OF sorted_rs_t_keys] set_rs_t_keys)
  have s1: "e \<in> set toDelete \<longleftrightarrow> (\<exists>t. db_Exists (db d) (K_rs_t t e) \<and> t < endTime)" for e
    using s2 by (auto simp: toDelete_def db_Exists_def image_iff)
  have s3: "(t, i) \<in> set toDelete2 \<longleftrightarrow> db_Exists (db d) (K_rs_t t i) \<and> t < endTime" for t i
    using s2 by (auto simp: db_Exists_def)
  define bd where "bd = cleanup_remove_loop bsh est toDelete ([], d)"
  define batch where "batch = fst bd @ map (\<lambda>k. BErase (K_rs_t (fst k) (snd k))) toDelete2"
  have sub0: "\<forall>k. batch_view ([], d) k \<noteq> None \<longrightarrow> batch_view ([], d) k = map_of (db (snd ([], d))) k"
    by (simp add: batch_view_Nil)
  have wf0: "recsig_db_wf (db (snd ([], d)))" using wf by simp
  note lp = cleanup_remove_loop_view [OF sub0 wf0, of bsh est toDelete, folded bd_def]
  have erase_times: "map_of (db_WriteBatch (map (\<lambda>k. BErase (K_rs_t (fst k) (snd k))) xs) kv) k =
      (if k \<in> (\<lambda>k. K_rs_t (fst k) (snd k)) ` set xs then None else map_of kv k)"
    for xs :: "(uint32 \<times> uint256) list" and kv :: "'a kvstore" and k
    by (induction xs arbitrary: kv) (auto simp del: apply_batch_op.simps)
  have fin: "map_of (db_WriteBatch batch (db (snd bd))) k =
      (if k \<in> (\<lambda>k. K_rs_t (fst k) (snd k)) ` set toDelete2 then None else batch_view bd k)" for k
    by (simp add: batch_def db_WriteBatch_append erase_times batch_view_def)
  have res: "CleanupOldRecoveredSigs bsh est now maxAge d =
      (if toDelete = [] then d else (snd bd)\<lparr>db := db_WriteBatch batch (db (snd bd))\<rparr>)"
    by (simp add: CleanupOldRecoveredSigs_def Let_def endTime_def
        toDelete2_def toDelete_def bd_def batch_def)
  have "ReadRecoveredSig e (CleanupOldRecoveredSigs bsh est now maxAge d) =
           (if e \<in> set toDelete then None else ReadRecoveredSig e d)"
  proof (cases "toDelete = []")
    case True
    then show ?thesis using res by simp
  next
    case False
    have "ReadRecoveredSig e ((snd bd)\<lparr>db := db_WriteBatch batch (db (snd bd))\<rparr>) =
        read_view (batch_view bd) e"
      by (simp add: ReadRecoveredSig_read_view read_view_def fin image_iff)
    also have "\<dots> = (if e \<in> set toDelete then None else read_view (batch_view ([], d)) e)"
      using lp [of e] by simp
    finally show ?thesis using False res
      by (simp add: batch_view_Nil ReadRecoveredSig_read_view)
  qed
  then show "ReadRecoveredSig e (CleanupOldRecoveredSigs bsh est now maxAge d) =
           (if \<exists>t. db_Exists (db d) (K_rs_t t e) \<and> t < endTime then None
            else ReadRecoveredSig e d)"
    by (simp only: s1)
  show "db_Exists (db (CleanupOldRecoveredSigs bsh est now maxAge d)) (K_rs_t t i) \<longleftrightarrow>
           db_Exists (db d) (K_rs_t t i) \<and> \<not> t < endTime"
  proof (cases "toDelete = []")
    case True
    then have "toDelete2 = []" by (simp add: toDelete_def)
    then have "\<not> (db_Exists (db d) (K_rs_t t i) \<and> t < endTime)" using s3 [of t i] by simp
    then show ?thesis using True res by auto
  next
    case False
    have "K_rs_t t i \<in> (\<lambda>k. K_rs_t (fst k) (snd k)) ` set toDelete2 \<longleftrightarrow> (t, i) \<in> set toDelete2"
      by force
    then have "map_of (db_WriteBatch batch (db (snd bd))) (K_rs_t t i) =
        (if (t, i) \<in> set toDelete2 then None else map_of (db d) (K_rs_t t i))"
      using fin [of "K_rs_t t i"] lp [of e t i] by (simp add: batch_view_Nil)
    then show ?thesis using False res s3 [of t i] by (auto simp: db_Exists_def)
  qed
qed

lemma TruncateRecoveredSig_general:
  assumes r: "ReadRecoveredSig (id' recSig) d = Some recSig"
  shows "fst (HasRecoveredSigForId (id' recSig) (TruncateRecoveredSig bsh (id' recSig) d)) = False"
    and "GetRecoveredSigById (id' recSig) (TruncateRecoveredSig bsh (id' recSig) d) = None"
    and "HasRecoveredSig (id' recSig) (msgHash recSig) (TruncateRecoveredSig bsh (id' recSig) d) = False"
    and "fst (HasRecoveredSigForSession (BuildSignHash bsh recSig)
                (TruncateRecoveredSig bsh (id' recSig) d)) = False"
    and "map_of (db (TruncateRecoveredSig bsh (id' recSig) d)) (K_rs_h h) = map_of (db d) (K_rs_h h)"
    and "hasSigForHashCache (TruncateRecoveredSig bsh (id' recSig) d) = hasSigForHashCache d"
    and "fst (HasRecoveredSigForHash h (TruncateRecoveredSig bsh (id' recSig) d)) =
           fst (HasRecoveredSigForHash h d)"
proof -
  define d2 where "d2 = TruncateRecoveredSig bsh (id' recSig) d"
  note t = TruncateRecoveredSig_Some [OF r, where bsh = bsh, folded d2_def]
  have m1: "map_of (db d2) (K_rs_r (id' recSig)) = None" by (simp add: t)
  have m2: "map_of (db d2) (K_rs_r_msg (id' recSig) (msgHash recSig)) = None" by (simp add: t)
  have m3: "map_of (db d2) (K_rs_s (BuildSignHash bsh recSig)) = None" by (simp add: t)
  have m4: "map_of (db d2) (K_rs_h h) = map_of (db d) (K_rs_h h)" by (simp add: t)
  have c1: "hasSigForIdCache d2 (id' recSig) = None" by (simp add: t)
  have c2: "hasSigForSessionCache d2 (BuildSignHash bsh recSig) = None" by (simp add: t)
  show "fst (HasRecoveredSigForId (id' recSig) d2) = False"
    using c1 m1 by (simp add: HasRecoveredSigForId_def db_Exists_def)
  show "GetRecoveredSigById (id' recSig) d2 = None"
    using m1 by (simp add: GetRecoveredSigById_def ReadRecoveredSig_map_of)
  show "HasRecoveredSig (id' recSig) (msgHash recSig) d2 = False"
    using m2 by (simp add: HasRecoveredSig_def db_Exists_def)
  show "fst (HasRecoveredSigForSession (BuildSignHash bsh recSig) d2) = False"
    using c2 m3 by (simp add: HasRecoveredSigForSession_def db_Exists_def)
  show "map_of (db d2) (K_rs_h h) = map_of (db d) (K_rs_h h)" by (rule m4)
  show "hasSigForHashCache d2 = hasSigForHashCache d" by (rule t(4))
  show "fst (HasRecoveredSigForHash h d2) = fst (HasRecoveredSigForHash h d)"
    using m4 t(4) by (simp add: HasRecoveredSigForHash_def db_Exists_def Let_def split: option.splits)
qed

text \<open>
  Claim C7. For every recovered signature that the store holds under its id and knows by
  its content hash, \<^verbatim>\<open>TruncateRecoveredSig(id)\<close> deletes the id-keyed record, the
  (id, message hash) key and the sign-hash (session) key with their cache entries, so that
  \<^verbatim>\<open>HasRecoveredSigForId(id)\<close> returns false afterwards, and leaves the content-hash key
  and its cache entry as they were, so that \<^verbatim>\<open>HasRecoveredSigForHash\<close> of the hash of the
  object still returns true.
\<close>

theorem TruncateRecoveredSig_keeps_hash_entry:
  assumes "GetRecoveredSigById (id' recSig) d = Some recSig"
      and "fst (HasRecoveredSigForHash (GetHash recSig) d) = True"
  shows "fst (HasRecoveredSigForId (id' recSig) (TruncateRecoveredSig bsh (id' recSig) d)) = False \<and>
         GetRecoveredSigById (id' recSig) (TruncateRecoveredSig bsh (id' recSig) d) = None \<and>
         HasRecoveredSig (id' recSig) (msgHash recSig) (TruncateRecoveredSig bsh (id' recSig) d) = False \<and>
         fst (HasRecoveredSigForSession (BuildSignHash bsh recSig)
                (TruncateRecoveredSig bsh (id' recSig) d)) = False \<and>
         fst (HasRecoveredSigForHash (GetHash recSig) (TruncateRecoveredSig bsh (id' recSig) d)) = True \<and>
         map_of (db (TruncateRecoveredSig bsh (id' recSig) d)) (K_rs_h (GetHash recSig)) =
           map_of (db d) (K_rs_h (GetHash recSig)) \<and>
         hasSigForHashCache (TruncateRecoveredSig bsh (id' recSig) d) (GetHash recSig) =
           hasSigForHashCache d (GetHash recSig)"
proof -
  have r: "ReadRecoveredSig (id' recSig) d = Some recSig"
    using assms(1) by (simp add: GetRecoveredSigById_def)
  show ?thesis
    using TruncateRecoveredSig_general [OF r, where bsh = bsh] assms(2) by simp
qed

lemma ex_db_50_map:
  "map_of (db ex_db_50) =
     [K_rs_r 2 \<mapsto> V_recSig ex_recSig, K_rs_r_msg 2 3 \<mapsto> V_uint32 50, K_rs_h 4 \<mapsto> V_uint256 2,
      K_rs_s 14 \<mapsto> V_uint8 1, K_rs_t 50 2 \<mapsto> V_uint8 1]"
  by (simp add: ex_db_50_def WriteRecoveredSig_db)
     (simp add: ex_recSig_def ex_empty_db_def GetHash_def BuildSignHash_def ex_bsh_def)

lemma ex_db_100_map:
  "map_of (db ex_db_100) =
     [K_rs_r 2 \<mapsto> V_recSig ex_recSig, K_rs_r_msg 2 3 \<mapsto> V_uint32 100, K_rs_h 4 \<mapsto> V_uint256 2,
      K_rs_s 14 \<mapsto> V_uint8 1, K_rs_t 100 2 \<mapsto> V_uint8 1]"
  by (simp add: ex_db_100_def WriteRecoveredSig_db)
     (simp add: ex_recSig_def ex_empty_db_def GetHash_def BuildSignHash_def ex_bsh_def)

lemma ex_recSig_fields:
  "id' ex_recSig = 2" "msgHash ex_recSig = 3" "GetHash ex_recSig = 4" "quorumHash ex_recSig = 1"
  "BuildSignHash ex_bsh ex_recSig = 14"
  by (simp_all add: ex_recSig_def GetHash_def BuildSignHash_def ex_bsh_def)

theorem TruncateRecoveredSig_keeps_hash_entry_witness:
  "GetRecoveredSigById 2 ex_db_50 = Some ex_recSig \<and>
   fst (HasRecoveredSigForHash 4 ex_db_50) = True \<and>
   fst (HasRecoveredSigForId 2 ex_db_50) = True \<and>
   fst (HasRecoveredSigForId 2 (TruncateRecoveredSig ex_bsh 2 ex_db_50)) = False \<and>
   GetRecoveredSigById 2 (TruncateRecoveredSig ex_bsh 2 ex_db_50) = None \<and>
   fst (HasRecoveredSigForHash 4 (TruncateRecoveredSig ex_bsh 2 ex_db_50)) = True"
proof -
  have a: "GetRecoveredSigById (id' ex_recSig) ex_db_50 = Some ex_recSig"
    by (simp add: GetRecoveredSigById_def ReadRecoveredSig_map_of ex_db_50_map ex_recSig_fields)
  have b: "fst (HasRecoveredSigForHash (GetHash ex_recSig) ex_db_50) = True"
    by (simp add: HasRecoveredSigForHash_def ex_db_50_def WriteRecoveredSig_caches)
  have c: "fst (HasRecoveredSigForId 2 ex_db_50) = True"
    by (simp add: HasRecoveredSigForId_def ex_db_50_def WriteRecoveredSig_caches ex_recSig_fields)
  show ?thesis
    using TruncateRecoveredSig_keeps_hash_entry [OF a b, where bsh = ex_bsh] a b c
    by (simp add: ex_recSig_fields)
qed

lemma recsig_db_wf_Nil: "recsig_db_wf []"
  by (simp add: recsig_db_wf_def)

lemma recsig_db_wf_Write:
  "recsig_db_wf (db d) \<Longrightarrow> recsig_db_wf (db (WriteRecoveredSig bsh now recSig d))"
  by (simp add: recsig_db_wf_def WriteRecoveredSig_db)

lemma unat_cleanup_endTime:
  assumes "unat now < 2 ^ 32" and "maxAge \<le> now"
  shows "unat (cleanup_endTime now maxAge) = unat now - unat maxAge"
proof -
  have "unat (now - maxAge) = unat now - unat maxAge"
    using assms(2) by (simp add: unat_sub)
  moreover have "unat now - unat maxAge < 2 ^ 32" using assms(1) by simp
  ultimately show ?thesis
    by (simp add: cleanup_endTime_def unsigned_ucast_eq take_bit_nat_eq_self)
qed

text \<open>
  Between the extremes the sweep does what its name says. For every well-formed store, a
  current time \<open>now\<close> that fits 32 bits and \<open>0 \<le> maxAge \<le> now\<close>,
  \<^verbatim>\<open>CleanupOldRecoveredSigs(maxAge)\<close> removes exactly the records that have a time key
  strictly below \<open>now - maxAge\<close>, and exactly those time keys.
\<close>

lemma CleanupOldRecoveredSigs_removes_older:
  assumes "recsig_db_wf (db d)" and "unat now < 2 ^ 32" and "maxAge \<le> now"
  shows "GetRecoveredSigById e (CleanupOldRecoveredSigs bsh est now maxAge d) =
           (if \<exists>t. db_Exists (db d) (K_rs_t t e) \<and> unat t < unat now - unat maxAge then None
            else GetRecoveredSigById e d) \<and>
         (db_Exists (db (CleanupOldRecoveredSigs bsh est now maxAge d)) (K_rs_t t e) \<longleftrightarrow>
            db_Exists (db d) (K_rs_t t e) \<and> \<not> unat t < unat now - unat maxAge)"
proof -
  have e: "t < cleanup_endTime now maxAge \<longleftrightarrow> unat t < unat now - unat maxAge" for t
    by (simp add: word_less_nat_alt unat_cleanup_endTime [OF assms(2,3)])
  have v1: "ReadRecoveredSig e (CleanupOldRecoveredSigs bsh est now maxAge d) =
           (if \<exists>t. db_Exists (db d) (K_rs_t t e) \<and> t < cleanup_endTime now maxAge then None
            else ReadRecoveredSig e d)"
    by (rule CleanupOldRecoveredSigs_view(1) [OF assms(1)])
  have v2: "db_Exists (db (CleanupOldRecoveredSigs bsh est now maxAge d)) (K_rs_t t e) \<longleftrightarrow>
           db_Exists (db d) (K_rs_t t e) \<and> \<not> t < cleanup_endTime now maxAge"
    by (rule CleanupOldRecoveredSigs_view(2) [OF assms(1)])
  show ?thesis
    unfolding GetRecoveredSigById_def v1 v2 e by (rule conjI) (rule refl)+
qed

lemma ex_db_wf: "recsig_db_wf (db ex_db_50)" "recsig_db_wf (db ex_db_100)"
  by (simp_all add: ex_db_50_def ex_db_100_def recsig_db_wf_Write ex_empty_db_def recsig_db_wf_Nil)

lemma ex_db_50_times: "db_Exists (db ex_db_50) (K_rs_t t 2) \<longleftrightarrow> t = 50"
  by (simp add: db_Exists_def ex_db_50_map)

lemma ex_db_100_times: "db_Exists (db ex_db_100) (K_rs_t t 2) \<longleftrightarrow> t = 100"
  by (simp add: db_Exists_def ex_db_100_map)

lemma ex_db_reads:
  "ReadRecoveredSig 2 ex_db_50 = Some ex_recSig" "ReadRecoveredSig 2 ex_db_100 = Some ex_recSig"
  by (simp_all add: ReadRecoveredSig_map_of ex_db_50_map ex_db_100_map)

lemma CleanupOldRecoveredSigs_removes_older_example:
  "recsig_db_wf (db ex_db_50) \<and> unat (100 :: int64) < 2 ^ 32 \<and> (0 :: int64) \<le> 100 \<and>
   (100 :: int64) \<le> 100 \<and>
   GetRecoveredSigById 2 ex_db_50 = Some ex_recSig \<and>
   GetRecoveredSigById 2 (CleanupOldRecoveredSigs ex_bsh length 100 0 ex_db_50) = None \<and>
   GetRecoveredSigById 2 (CleanupOldRecoveredSigs ex_bsh length 100 100 ex_db_50) = Some ex_recSig"
proof -
  have n: "unat (100 :: int64) < 2 ^ 32" by simp
  have z: "(0 :: int64) \<le> 100" by simp
  have h: "(100 :: int64) \<le> 100" by simp
  have ex: "\<exists>t. db_Exists (db ex_db_50) (K_rs_t t 2) \<and> unat t < unat (100 :: int64) - unat (0 :: int64)"
    by (rule exI [of _ 50]) (simp add: ex_db_50_times)
  have a: "GetRecoveredSigById 2 (CleanupOldRecoveredSigs ex_bsh length 100 0 ex_db_50) = None"
    using CleanupOldRecoveredSigs_removes_older [OF ex_db_wf(1) n z, where e = 2 and t = 0
        and bsh = ex_bsh and est = length] ex
    by simp
  have b: "GetRecoveredSigById 2 (CleanupOldRecoveredSigs ex_bsh length 100 100 ex_db_50) = Some ex_recSig"
    using CleanupOldRecoveredSigs_removes_older [OF ex_db_wf(1) n h, where e = 2 and t = 0
        and bsh = ex_bsh and est = length]
    by (simp add: GetRecoveredSigById_def ex_db_reads)
  show ?thesis
    using a b ex_db_wf(1) by (simp add: GetRecoveredSigById_def ex_db_reads)
qed

lemma ex_endTime_now: "cleanup_endTime 100 0 = 100"
  by (simp add: cleanup_endTime_def)

lemma ex_endTime_wrap: "cleanup_endTime 100 9223372036854775807 = 101"
  by (simp add: cleanup_endTime_def)

lemma ex_db_100_unfold:
  "ex_db_100 =
     \<lparr>db = [(K_rs_r 2, V_recSig ex_recSig), (K_rs_r_msg 2 3, V_uint32 100), (K_rs_h 4, V_uint256 2),
            (K_rs_s 14, V_uint8 1), (K_rs_t 100 2, V_uint8 1)],
      hasSigForIdCache = [2 \<mapsto> True], hasSigForSessionCache = [14 \<mapsto> True],
      hasSigForHashCache = [4 \<mapsto> True]\<rparr>"
  by (simp add: ex_db_100_def WriteRecoveredSig_def Let_def ex_empty_db_def ex_recSig_fields
      ex_recSig_def [symmetric])

lemma ex_db_50_unfold:
  "ex_db_50 =
     \<lparr>db = [(K_rs_r 2, V_recSig ex_recSig), (K_rs_r_msg 2 3, V_uint32 50), (K_rs_h 4, V_uint256 2),
            (K_rs_s 14, V_uint8 1), (K_rs_t 50 2, V_uint8 1)],
      hasSigForIdCache = [2 \<mapsto> True], hasSigForSessionCache = [14 \<mapsto> True],
      hasSigForHashCache = [4 \<mapsto> True]\<rparr>"
  by (simp add: ex_db_50_def WriteRecoveredSig_def Let_def ex_empty_db_def ex_recSig_fields
      ex_recSig_def [symmetric])

lemma ex_cleanup_zero: "CleanupOldRecoveredSigs ex_bsh length 100 0 ex_db_100 = ex_db_100"
  by (simp add: CleanupOldRecoveredSigs_def Let_def ex_endTime_now ex_db_100_unfold rs_t_keys_def)

lemma ex_cleanup_max:
  "CleanupOldRecoveredSigs ex_bsh length 100 9223372036854775807 ex_db_50 = ex_empty_db"
  by (simp add: CleanupOldRecoveredSigs_def Let_def ex_endTime_wrap ex_db_50_unfold rs_t_keys_def
      RemoveRecoveredSig_batch_def ReadRecoveredSig_def db_Read_recSig_def ex_recSig_fields
      ex_empty_db_def)

lemma ex_clear: "sigDb (Clear ex_env length ex_mgr_100) = ex_db_100"
proof -
  have "CleanupOldVotes 100 0 ex_db_100 = ex_db_100"
    by (simp add: CleanupOldVotes_def Let_def ex_db_100_unfold rs_vt_keys_def)
  then show ?thesis
    by (simp add: Clear_def Let_def ex_env_def ex_mgr_100_def ex_cleanup_zero)
qed

text \<open>
  Claim C8. \<^verbatim>\<open>CleanupOldRecoveredSigs(0)\<close> is to remove every stored record whatever its
  insertion time, and a sweep with an unboundedly large \<open>maxAge\<close> is to remove none. The
  code misses both ends. A record written in the current second (time 100, \<open>now = 100\<close>)
  survives \<^verbatim>\<open>CleanupOldRecoveredSigs(0)\<close>, since the scan stops at the first time that is
  not below \<^verbatim>\<open>endTime = now\<close>; so \<^verbatim>\<open>Clear\<close>, which sweeps with \<^verbatim>\<open>maxAge = 0\<close> to empty the
  store, leaves that record in it. With the largest \<^verbatim>\<open>int64_t\<close> as \<open>maxAge\<close> the difference
  \<open>now - maxAge\<close> converted to \<^verbatim>\<open>uint32_t\<close> is 101, and the record written at time 50 is
  removed with all of its keys and cache entries.
\<close>

theorem CleanupOldRecoveredSigs_fails_at_extremes:
  "GetRecoveredSigById 2 ex_db_100 = Some ex_recSig \<and>
   cleanup_endTime 100 0 = 100 \<and>
   CleanupOldRecoveredSigs ex_bsh length 100 0 ex_db_100 = ex_db_100 \<and>
   GetRecoveredSigById 2 (sigDb (Clear ex_env length ex_mgr_100)) = Some ex_recSig \<and>
   GetRecoveredSigById 2 ex_db_50 = Some ex_recSig \<and>
   cleanup_endTime 100 9223372036854775807 = 101 \<and>
   CleanupOldRecoveredSigs ex_bsh length 100 9223372036854775807 ex_db_50 = ex_empty_db \<and>
   GetRecoveredSigById 2 ex_empty_db = None"
  by (simp add: ex_endTime_now ex_endTime_wrap ex_cleanup_zero ex_cleanup_max ex_clear
      GetRecoveredSigById_def ex_db_reads)
     (simp add: ReadRecoveredSig_def db_Read_recSig_def ex_empty_db_def)

section \<open>Properties of the signing manager\<close>

subsection \<open>A second recovered signature for an id\<close>

lemma emit_fields:
  "sigDb (emit es s) = sigDb s"
  "events (emit es s) = events s @ es"
  "pendingRecoveredSigs (emit es s) = pendingRecoveredSigs s"
  "pendingReconstructedRecoveredSigs (emit es s) = pendingReconstructedRecoveredSigs s"
  "recoveredSigsListeners (emit es s) = recoveredSigsListeners s"
  by (simp_all add: emit_def)

lemma HasRecoveredSigForHash_db [simp]:
  "db (snd (HasRecoveredSigForHash h d)) = db d"
  "hasSigForIdCache (snd (HasRecoveredSigForHash h d)) = hasSigForIdCache d"
  by (simp_all add: HasRecoveredSigForHash_def Let_def split: option.splits)

lemma HasRecoveredSigForId_db [simp]:
  "db (snd (HasRecoveredSigForId i d)) = db d"
  by (simp add: HasRecoveredSigForId_def Let_def split: option.splits)

lemma HasRecoveredSigForId_stored:
  assumes "GetRecoveredSigById i d = Some r" and "hasSigForIdCache d i \<noteq> Some False"
  shows "fst (HasRecoveredSigForId i d) = True"
proof -
  have "map_of (db d) (K_rs_r i) \<noteq> None"
    using assms(1) by (auto simp: GetRecoveredSigById_def ReadRecoveredSig_map_of split: option.splits)
  then show ?thesis
    using assms(2)
    by (cases "hasSigForIdCache d i") (simp_all add: HasRecoveredSigForId_def db_Exists_def)
qed

lemma GetRecoveredSigById_db_cong:
  "db d1 = db d \<Longrightarrow> GetRecoveredSigById i d1 = GetRecoveredSigById i d"
  by (simp add: GetRecoveredSigById_def ReadRecoveredSig_def)

lemma ProcessRecoveredSig_accept_conflict:
  assumes stored: "GetRecoveredSigById (id' recoveredSig) (sigDb s) = Some otherRecoveredSig"
      and cache: "hasSigForIdCache (sigDb s) (id' recoveredSig) \<noteq> Some False"
      and diff: "BuildSignHash (buildSignHash env) recoveredSig \<noteq>
                 BuildSignHash (buildSignHash env) otherRecoveredSig"
  shows "db (sigDb (ProcessRecoveredSig_accept env nodeId recoveredSig s)) = db (sigDb s)"
    and "events (ProcessRecoveredSig_accept env nodeId recoveredSig s) =
           events s @
           [LogPrintf (Log_conflicting_recoveredSig (BuildSignHash (buildSignHash env) recoveredSig)
                         (id' recoveredSig) (msgHash recoveredSig)
                         (BuildSignHash (buildSignHash env) otherRecoveredSig)),
            ForgetTxHash nodeId (GetHash recoveredSig)]"
proof -
  obtain hasId d1 where h: "HasRecoveredSigForId (id' recoveredSig) (sigDb s) = (hasId, d1)"
    by force
  have hid: "hasId = True" using HasRecoveredSigForId_stored [OF stored cache] h by simp
  have d1: "db d1 = db (sigDb s)" using HasRecoveredSigForId_db [of "id' recoveredSig" "sigDb s"] h by simp
  have g: "GetRecoveredSigById (id' recoveredSig) d1 = Some otherRecoveredSig"
    using stored GetRecoveredSigById_db_cong [OF d1] by simp
  show "db (sigDb (ProcessRecoveredSig_accept env nodeId recoveredSig s)) = db (sigDb s)"
    using h hid g diff d1 by (simp add: ProcessRecoveredSig_accept_def Let_def emit_fields)
  show "events (ProcessRecoveredSig_accept env nodeId recoveredSig s) =
           events s @
           [LogPrintf (Log_conflicting_recoveredSig (BuildSignHash (buildSignHash env) recoveredSig)
                         (id' recoveredSig) (msgHash recoveredSig)
                         (BuildSignHash (buildSignHash env) otherRecoveredSig)),
            ForgetTxHash nodeId (GetHash recoveredSig)]"
    using h hid g diff by (simp add: ProcessRecoveredSig_accept_def Let_def emit_fields)
qed

lemma mark_received_fields:
  "sigDb (mark_received env nodeId h s) = sigDb s"
  by (simp add: mark_received_def emit_fields)

lemma reject_recsig_fields:
  "sigDb (reject_recsig env nodeId h msg reason s) = sigDb s"
  by (simp add: reject_recsig_def emit_fields)

text \<open>
  Claim C1, as amended. For every recovered signature stored for an id (and an existence
  cache that does not deny it), processing a second recovered signature with the same id
  and another sign hash (the code compares the sign hashes, which differ when the message
  hashes do) writes nothing to the store and leaves the stored record as it is. The
  conflict is logged when the second signature gets as far as the comparison: when the
  block its message hash names passes the checks of \<^verbatim>\<open>ProcessRecoveredSig\<close> and its
  content hash is not already known.
\<close>

theorem ProcessRecoveredSig_conflict_rejected:
  assumes stored: "GetRecoveredSigById (id' recoveredSig) (sigDb s) = Some otherRecoveredSig"
      and cache: "hasSigForIdCache (sigDb s) (id' recoveredSig) \<noteq> Some False"
      and diff: "BuildSignHash (buildSignHash env) recoveredSig \<noteq>
                 BuildSignHash (buildSignHash env) otherRecoveredSig"
  shows "db (sigDb (ProcessRecoveredSig env nodeId recoveredSig s)) = db (sigDb s) \<and>
         GetRecoveredSigById (id' recoveredSig) (sigDb (ProcessRecoveredSig env nodeId recoveredSig s)) =
           Some otherRecoveredSig \<and>
         ((\<exists>pindex. LookupBlockIndex env (msgHash recoveredSig) = Some pindex \<and>
                    nHeight pindex mod SIGN_HEIGHT_LOOKBACK env = 0 \<and>
                    ActiveChain_Contains env (msgHash recoveredSig) \<and> IsValid_SCRIPTS pindex) \<and>
          fst (HasRecoveredSigForHash (GetHash recoveredSig) (sigDb s)) = False \<longrightarrow>
          LogPrintf (Log_conflicting_recoveredSig (BuildSignHash (buildSignHash env) recoveredSig)
                       (id' recoveredSig) (msgHash recoveredSig)
                       (BuildSignHash (buildSignHash env) otherRecoveredSig))
            \<in> set (events (ProcessRecoveredSig env nodeId recoveredSig s)))"
proof -
  define h where "h = GetHash recoveredSig"
  define s1 where "s1 = mark_received env nodeId h s"
  define d1 where "d1 = snd (HasRecoveredSigForHash h (sigDb s))"
  define s2 where "s2 = s1\<lparr>sigDb := d1\<rparr>"
  have sd: "sigDb s1 = sigDb s" by (simp add: s1_def mark_received_fields)
  have db2: "db (sigDb s2) = db (sigDb s)" by (simp add: s2_def d1_def)
  have stored2: "GetRecoveredSigById (id' recoveredSig) (sigDb s2) = Some otherRecoveredSig"
    using stored GetRecoveredSigById_db_cong [OF db2] by simp
  have cache2: "hasSigForIdCache (sigDb s2) (id' recoveredSig) \<noteq> Some False"
    using cache by (simp add: s2_def d1_def)
  note acc = ProcessRecoveredSig_accept_conflict [OF stored2 cache2 diff, of nodeId]
  have known: "ProcessRecoveredSig env nodeId recoveredSig s = ProcessRecoveredSig_accept env nodeId recoveredSig s2"
    if "LookupBlockIndex env (msgHash recoveredSig) = Some pindex"
       "nHeight pindex mod SIGN_HEIGHT_LOOKBACK env = 0"
       "ActiveChain_Contains env (msgHash recoveredSig)" "IsValid_SCRIPTS pindex"
       "fst (HasRecoveredSigForHash h (sigDb s)) = False" for pindex
    using that
    by (simp add: ProcessRecoveredSig_def Let_def case_prod_beta mark_received_fields
        s2_def d1_def s1_def h_def)
  have other: "sigDb (ProcessRecoveredSig env nodeId recoveredSig s) = sigDb s \<or>
               sigDb (ProcessRecoveredSig env nodeId recoveredSig s) = d1 \<or>
               ProcessRecoveredSig env nodeId recoveredSig s =
                 ProcessRecoveredSig_accept env nodeId recoveredSig s2"
    by (simp add: ProcessRecoveredSig_def Let_def case_prod_beta mark_received_fields
        reject_recsig_fields emit_fields s2_def d1_def s1_def h_def split: option.splits)
  have dbd1: "db d1 = db (sigDb s)" by (simp add: d1_def)
  have dbres: "db (sigDb (ProcessRecoveredSig env nodeId recoveredSig s)) = db (sigDb s)"
    using other acc(1) db2 dbd1 by auto
  have getres: "GetRecoveredSigById (id' recoveredSig)
      (sigDb (ProcessRecoveredSig env nodeId recoveredSig s)) = Some otherRecoveredSig"
    using stored GetRecoveredSigById_db_cong [OF dbres] by simp
  have logres: "LogPrintf (Log_conflicting_recoveredSig (BuildSignHash (buildSignHash env) recoveredSig)
                       (id' recoveredSig) (msgHash recoveredSig)
                       (BuildSignHash (buildSignHash env) otherRecoveredSig))
            \<in> set (events (ProcessRecoveredSig env nodeId recoveredSig s))"
    if ok: "LookupBlockIndex env (msgHash recoveredSig) = Some pindex"
       "nHeight pindex mod SIGN_HEIGHT_LOOKBACK env = 0"
       "ActiveChain_Contains env (msgHash recoveredSig)" "IsValid_SCRIPTS pindex"
       and unknown: "fst (HasRecoveredSigForHash (GetHash recoveredSig) (sigDb s)) = False"
    for pindex
  proof -
    have u1: "fst (HasRecoveredSigForHash h (sigDb s)) = False"
      using unknown by (simp add: h_def)
    have "ProcessRecoveredSig env nodeId recoveredSig s =
        ProcessRecoveredSig_accept env nodeId recoveredSig s2"
      using known [OF ok u1] .
    then show ?thesis using acc(2) by simp
  qed
  show ?thesis
  proof (intro conjI impI)
    show "db (sigDb (ProcessRecoveredSig env nodeId recoveredSig s)) = db (sigDb s)"
      by (rule dbres)
    show "GetRecoveredSigById (id' recoveredSig)
        (sigDb (ProcessRecoveredSig env nodeId recoveredSig s)) = Some otherRecoveredSig"
      by (rule getres)
    assume a: "(\<exists>pindex. LookupBlockIndex env (msgHash recoveredSig) = Some pindex \<and>
                    nHeight pindex mod SIGN_HEIGHT_LOOKBACK env = 0 \<and>
                    ActiveChain_Contains env (msgHash recoveredSig) \<and> IsValid_SCRIPTS pindex) \<and>
          fst (HasRecoveredSigForHash (GetHash recoveredSig) (sigDb s)) = False"
    then obtain pindex where p: "LookupBlockIndex env (msgHash recoveredSig) = Some pindex"
       "nHeight pindex mod SIGN_HEIGHT_LOOKBACK env = 0"
       "ActiveChain_Contains env (msgHash recoveredSig)" "IsValid_SCRIPTS pindex"
      by auto
    from a have u: "fst (HasRecoveredSigForHash (GetHash recoveredSig) (sigDb s)) = False" by simp
    show "LogPrintf (Log_conflicting_recoveredSig (BuildSignHash (buildSignHash env) recoveredSig)
                       (id' recoveredSig) (msgHash recoveredSig)
                       (BuildSignHash (buildSignHash env) otherRecoveredSig))
            \<in> set (events (ProcessRecoveredSig env nodeId recoveredSig s))"
      by (rule logres [OF p u])
  qed
qed

lemma ex_mgr_fields:
  "sigDb ex_mgr = ex_db_50" "events ex_mgr = []" "recoveredSigsListeners ex_mgr = []"
  by (simp_all add: ex_mgr_def ex_mgr_empty_def)

lemma ex_env_fields:
  "buildSignHash ex_env = ex_bsh" "GetPeerRef ex_env 7 = True"
  "LookupBlockIndex ex_env 5 = Some \<lparr>nHeight = 15, IsValid_SCRIPTS = True\<rparr>"
  "LookupBlockIndex ex_env 7 = None"
  "ActiveChain_Contains ex_env 5 = True" "SIGN_HEIGHT_LOOKBACK ex_env = 5"
  by (simp_all add: ex_env_def)

lemma ex_recSig_b_fields:
  "id' ex_recSig_b = 2" "msgHash ex_recSig_b = 5" "GetHash ex_recSig_b = 6"
  "BuildSignHash ex_bsh ex_recSig_b = 20"
  by (simp_all add: ex_recSig_b_def GetHash_def BuildSignHash_def ex_bsh_def)

lemma ex_recSig_c_fields:
  "id' ex_recSig_c = 2" "msgHash ex_recSig_c = 7" "GetHash ex_recSig_c = 8"
  "BuildSignHash ex_bsh ex_recSig_c = 26"
  by (simp_all add: ex_recSig_c_def GetHash_def BuildSignHash_def ex_bsh_def)

lemma ex_db_50_caches:
  "hasSigForIdCache ex_db_50 = [2 \<mapsto> True]" "hasSigForHashCache ex_db_50 = [4 \<mapsto> True]"
  by (simp_all add: ex_db_50_def WriteRecoveredSig_caches ex_recSig_fields ex_empty_db_def)

theorem ProcessRecoveredSig_conflict_rejected_witness:
  "GetRecoveredSigById (id' ex_recSig_b) (sigDb ex_mgr) = Some ex_recSig \<and>
   hasSigForIdCache (sigDb ex_mgr) (id' ex_recSig_b) \<noteq> Some False \<and>
   BuildSignHash (buildSignHash ex_env) ex_recSig_b \<noteq> BuildSignHash (buildSignHash ex_env) ex_recSig \<and>
   msgHash ex_recSig_b \<noteq> msgHash ex_recSig \<and>
   db (sigDb (ProcessRecoveredSig ex_env 7 ex_recSig_b ex_mgr)) = db (sigDb ex_mgr) \<and>
   GetRecoveredSigById 2 (sigDb (ProcessRecoveredSig ex_env 7 ex_recSig_b ex_mgr)) = Some ex_recSig \<and>
   LogPrintf (Log_conflicting_recoveredSig 20 2 5 14)
     \<in> set (events (ProcessRecoveredSig ex_env 7 ex_recSig_b ex_mgr))"
proof -
  have stored: "GetRecoveredSigById (id' ex_recSig_b) (sigDb ex_mgr) = Some ex_recSig"
    by (simp add: ex_mgr_fields ex_recSig_b_fields GetRecoveredSigById_def ex_db_reads)
  have cache: "hasSigForIdCache (sigDb ex_mgr) (id' ex_recSig_b) \<noteq> Some False"
    by (simp add: ex_mgr_fields ex_recSig_b_fields ex_db_50_caches)
  have diff: "BuildSignHash (buildSignHash ex_env) ex_recSig_b \<noteq>
              BuildSignHash (buildSignHash ex_env) ex_recSig"
    by (simp add: ex_env_fields ex_recSig_b_fields ex_recSig_fields)
  have blk: "\<exists>pindex. LookupBlockIndex ex_env (msgHash ex_recSig_b) = Some pindex \<and>
                    nHeight pindex mod SIGN_HEIGHT_LOOKBACK ex_env = 0 \<and>
                    ActiveChain_Contains ex_env (msgHash ex_recSig_b) \<and> IsValid_SCRIPTS pindex"
    by (simp add: ex_env_fields ex_recSig_b_fields)
  have unknown: "fst (HasRecoveredSigForHash (GetHash ex_recSig_b) (sigDb ex_mgr)) = False"
    by (simp add: ex_mgr_fields ex_recSig_b_fields HasRecoveredSigForHash_def ex_db_50_caches
        db_Exists_def ex_db_50_map)
  show ?thesis
    using ProcessRecoveredSig_conflict_rejected [OF stored cache diff, where nodeId = 7]
      stored cache diff blk unknown
    by (simp add: ex_env_fields ex_recSig_b_fields ex_recSig_fields)
qed

text \<open>
  The claim as stated has the conflict logged for every such signature. That fails for
  \<open>ex_recSig_c\<close>: same id 2 as the stored \<open>ex_recSig\<close>, message hash 7 instead of 3, another
  sign hash; no block of hash 7 is known, and \<^verbatim>\<open>ProcessRecoveredSig\<close> returns after the
  block lookup. The log has the line of the missing block and no line of a conflict.
\<close>

theorem ProcessRecoveredSig_conflict_not_logged_counterexample:
  "GetRecoveredSigById (id' ex_recSig_c) (sigDb ex_mgr) = Some ex_recSig \<and>
   fst (HasRecoveredSigForId (id' ex_recSig_c) (sigDb ex_mgr)) = True \<and>
   msgHash ex_recSig_c \<noteq> msgHash ex_recSig \<and>
   BuildSignHash (buildSignHash ex_env) ex_recSig_c \<noteq> BuildSignHash (buildSignHash ex_env) ex_recSig \<and>
   events ex_mgr = [] \<and>
   events (ProcessRecoveredSig ex_env 7 ex_recSig_c ex_mgr) =
     [AddKnownTx 7 8, ReceivedResponse 7 8, LogPrintf (Log_block_does_not_exist 2),
      ForgetTxHash 7 8, Misbehaving 7 10 ''invalid recovered signature'']"
  by (simp add: ProcessRecoveredSig_def Let_def ex_recSig_c_fields ex_env_fields reject_recsig_def
      mark_received_def emit_def ex_mgr_fields GetRecoveredSigById_def ex_db_reads
      HasRecoveredSigForId_def ex_db_50_caches ex_recSig_fields)

subsection \<open>Signing once per id\<close>

lemma db_Exists_cong: "db d1 = db d \<Longrightarrow> HasVotedOnId i d1 = HasVotedOnId i d"
  by (simp add: HasVotedOnId_def)

lemma WriteVoteForId_vote:
  "GetVoteForId i (WriteVoteForId now i m d) = Some m"
  "HasVotedOnId i (WriteVoteForId now i m d)"
  by (simp_all add: WriteVoteForId_def GetVoteForId_def HasVotedOnId_def db_Read_uint256_def
      db_Exists_def Let_def del: apply_batch_op.simps)

lemma AsyncSignIfMember_voted_cases:
  assumes "HasVotedOnId i (sigDb s)"
  shows "db (sigDb (snd (AsyncSignIfMember env i m qh re s))) = db (sigDb s)"
  using assms
  by (simp add: AsyncSignIfMember_def Let_def case_prod_beta emit_fields split: option.splits)

lemma AsyncSignIfMember_same_vote_noop:
  assumes "HasVotedOnId i (sigDb s)" and "GetVoteForId i (sigDb s) = Some m"
  shows "AsyncSignIfMember env i m qh False s = (False, s)"
  using assms
  by (simp add: AsyncSignIfMember_def Let_def split: option.splits)

lemma AsyncSignIfMember_records_vote:
  assumes nv: "\<not> HasVotedOnId i (sigDb s)"
      and v: "HasVotedOnId i (sigDb (snd (AsyncSignIfMember env i m qh re s)))"
  shows "GetVoteForId i (sigDb (snd (AsyncSignIfMember env i m qh re s))) = Some m"
proof -
  define q where "q = (if qh = 0 then SelectQuorumForSigning env i (- 1) (defaultSignOffset env)
                       else GetQuorum env qh)"
  define d1 where "d1 = snd (HasRecoveredSigForId i (sigDb s))"
  have hid: "HasVotedOnId i d1 = HasVotedOnId i (sigDb s)"
    by (simp add: HasVotedOnId_def d1_def)
  have cases: "sigDb (snd (AsyncSignIfMember env i m qh re s)) = sigDb s \<or>
               sigDb (snd (AsyncSignIfMember env i m qh re s)) = d1 \<or>
               sigDb (snd (AsyncSignIfMember env i m qh re s)) = WriteVoteForId (adjustedTime env) i m d1"
    using nv
    by (cases q)
       (simp_all add: AsyncSignIfMember_def Let_def case_prod_beta emit_fields q_def [symmetric]
         d1_def [symmetric])
  then show ?thesis using nv v hid by (auto simp: WriteVoteForId_vote)
qed

text \<open>
  Claim C6. When a call of \<^verbatim>\<open>AsyncSignIfMember\<close> for an id and a message hash recorded a
  vote (there was none for the id before the call and there is one after it), a second
  call with the same id and message hash and without the re-sign flag returns false and
  leaves the manager as it is: no second vote, no call of the share-signing dispatch.
  Whatever the message hash and the flag of the second call, the store is not written:
  the vote for an id is recorded once.
\<close>

theorem AsyncSignIfMember_votes_once:
  assumes "\<not> HasVotedOnId i (sigDb s)"
      and "HasVotedOnId i (sigDb (snd (AsyncSignIfMember env1 i m qh1 re1 s)))"
  shows "AsyncSignIfMember env2 i m qh2 False (snd (AsyncSignIfMember env1 i m qh1 re1 s)) =
           (False, snd (AsyncSignIfMember env1 i m qh1 re1 s)) \<and>
         db (sigDb (snd (AsyncSignIfMember env2 i m2 qh2 re2 (snd (AsyncSignIfMember env1 i m qh1 re1 s))))) =
           db (sigDb (snd (AsyncSignIfMember env1 i m qh1 re1 s)))"
proof -
  define s1 where "s1 = snd (AsyncSignIfMember env1 i m qh1 re1 s)"
  have v: "GetVoteForId i (sigDb s1) = Some m"
    unfolding s1_def by (rule AsyncSignIfMember_records_vote [OF assms])
  have h: "HasVotedOnId i (sigDb s1)" using assms(2) by (simp add: s1_def)
  show ?thesis
    unfolding s1_def [symmetric]
    using AsyncSignIfMember_same_vote_noop [OF h v, where env = env2 and qh = qh2]
      AsyncSignIfMember_voted_cases [OF h, where env = env2 and m = m2 and qh = qh2 and re = re2]
    by (rule conjI)
qed

theorem AsyncSignIfMember_votes_once_witness:
  "\<not> HasVotedOnId 2 (sigDb ex_mgr_empty) \<and>
   HasVotedOnId 2 (sigDb (snd (AsyncSignIfMember ex_env 2 3 1 False ex_mgr_empty))) \<and>
   fst (AsyncSignIfMember ex_env 2 3 1 False ex_mgr_empty) = True \<and>
   events (snd (AsyncSignIfMember ex_env 2 3 1 False ex_mgr_empty)) = [AsyncSign 1 2 3] \<and>
   AsyncSignIfMember ex_env 2 3 1 False (snd (AsyncSignIfMember ex_env 2 3 1 False ex_mgr_empty)) =
     (False, snd (AsyncSignIfMember ex_env 2 3 1 False ex_mgr_empty))"
proof -
  have first: "AsyncSignIfMember ex_env 2 3 1 False ex_mgr_empty =
      (True, ex_mgr_empty\<lparr>sigDb := WriteVoteForId 100 2 3
                (ex_empty_db\<lparr>hasSigForIdCache := [2 \<mapsto> False]\<rparr>),
              events := [AsyncSign 1 2 3]\<rparr>)"
    by (simp add: AsyncSignIfMember_def ex_env_def ex_mgr_empty_def ex_empty_db_def ex_quorum_def
        HasVotedOnId_def GetVoteForId_def db_Exists_def db_Read_uint256_def
        HasRecoveredSigForId_def Let_def emit_def)
  have a: "\<not> HasVotedOnId 2 (sigDb ex_mgr_empty)"
    by (simp add: HasVotedOnId_def ex_mgr_empty_def ex_empty_db_def db_Exists_def)
  have b: "HasVotedOnId 2 (sigDb (snd (AsyncSignIfMember ex_env 2 3 1 False ex_mgr_empty)))"
    by (simp add: first WriteVoteForId_vote)
  show ?thesis
    using AsyncSignIfMember_votes_once [OF a b, where ?env2.0 = ex_env and ?qh2.0 = 1
        and ?m2.0 = 3 and ?re2.0 = False] a b
    by (simp add: first)
qed

section \<open>Properties of the batched verification of pending recovered signatures\<close>

subsection \<open>The sources that the batch verifier ends with\<close>

lemma flagged_PushMessage:
  "flagged env (PushMessage n mid sh sg pk bv) =
     flagged env bv \<union> (if VerifyInsecure env sg pk sh then {} else {n})"
  by (auto simp: flagged_def Verify_def PushMessage_def message_fails_def)

lemma flagged_insert:
  "flagged env (bv\<lparr>badSources := insert n (badSources bv)\<rparr>) = insert n (flagged env bv)"
  by (auto simp: flagged_def Verify_def)

lemma push_node_sigs_flagged:
  assumes "\<forall>rs \<in> set v. quorums (quorumHash rs) \<noteq> None"
  shows "\<exists>bv'. push_node_sigs env quorums n v bv = Some bv' \<and>
           flagged env bv' =
             flagged env bv \<union> (if \<exists>rs \<in> set v. \<not> recsig_valid env quorums rs then {n} else {})"
  using assms
proof (induction v arbitrary: bv)
  case Nil
  then show ?case by simp
next
  case (Cons rs v)
  show ?case
  proof (cases "sig_IsValid env (sig rs)")
    case False
    then show ?thesis by (simp add: flagged_insert recsig_valid_def)
  next
    case True
    obtain q where q: "quorums (quorumHash rs) = Some q" using Cons.prems by auto
    define bv1 where "bv1 = PushMessage n (GetHash rs) (BuildSignHash (buildSignHash env) rs)
                  (sig rs) (qc_quorumPublicKey q) bv"
    have "\<forall>rs \<in> set v. quorums (quorumHash rs) \<noteq> None" using Cons.prems by simp
    from Cons.IH [OF this, of bv1] obtain bv' where
      bv': "push_node_sigs env quorums n v bv1 = Some bv'"
      "flagged env bv' =
         flagged env bv1 \<union> (if \<exists>rs \<in> set v. \<not> recsig_valid env quorums rs then {n} else {})"
      by blast
    have f1: "flagged env bv1 = flagged env bv \<union> (if recsig_valid env quorums rs then {} else {n})"
      using True q by (simp add: bv1_def flagged_PushMessage recsig_valid_def)
    have "push_node_sigs env quorums n (rs # v) bv = Some bv'"
      using True q bv'(1) by (simp add: bv1_def)
    moreover have "flagged env bv' =
        flagged env bv \<union> (if \<exists>r \<in> set (rs # v). \<not> recsig_valid env quorums r then {n} else {})"
      using bv'(2) f1 by auto
    ultimately show ?thesis by blast
  qed
qed

lemma push_all_sigs_flagged:
  assumes "\<forall>nv \<in> set rsbn. \<forall>rs \<in> set (snd nv). quorums (quorumHash rs) \<noteq> None"
  shows "\<exists>bv'. push_all_sigs env quorums rsbn bv = Some bv' \<and>
           flagged env bv' =
             flagged env bv \<union>
             {n. \<exists>nv \<in> set rsbn. fst nv = n \<and> (\<exists>rs \<in> set (snd nv). \<not> recsig_valid env quorums rs)}"
  using assms
proof (induction rsbn arbitrary: bv)
  case Nil
  then show ?case by simp
next
  case (Cons nv rest)
  obtain n v where nv: "nv = (n, v)" by (cases nv) auto
  have "\<forall>rs \<in> set v. quorums (quorumHash rs) \<noteq> None" using Cons.prems nv by auto
  from push_node_sigs_flagged [OF this, of env n bv] obtain bv1 where
    bv1: "push_node_sigs env quorums n v bv = Some bv1"
    "flagged env bv1 =
       flagged env bv \<union> (if \<exists>rs \<in> set v. \<not> recsig_valid env quorums rs then {n} else {})"
    by blast
  have "\<forall>nv \<in> set rest. \<forall>rs \<in> set (snd nv). quorums (quorumHash rs) \<noteq> None"
    using Cons.prems by simp
  from Cons.IH [OF this, of bv1] obtain bv' where
    bv': "push_all_sigs env quorums rest bv1 = Some bv'"
    "flagged env bv' =
       flagged env bv1 \<union>
       {n. \<exists>nv \<in> set rest. fst nv = n \<and> (\<exists>rs \<in> set (snd nv). \<not> recsig_valid env quorums rs)}"
    by blast
  have "push_all_sigs env quorums (nv # rest) bv = Some bv'"
    using bv1(1) bv'(1) nv by simp
  moreover have "flagged env bv' =
             flagged env bv \<union>
             {m. \<exists>x \<in> set (nv # rest). fst x = m \<and> (\<exists>rs \<in> set (snd x). \<not> recsig_valid env quorums rs)}"
    using bv1(2) bv'(2) nv by auto
  ultimately show ?case by blast
qed

subsection \<open>The events of a round\<close>

lemma events_emit: "events (emit es s) = events s @ es"
  by (simp add: emit_def)

lemma responses_simps [simp]:
  "responses [] = []" "responses (e # es) = response_of e @ responses es"
  "responses (es @ es') = responses es @ responses es'"
  by (simp_all add: responses_def)

lemma reports_100_simps [simp]:
  "reports_100 [] = []" "reports_100 (e # es) = report_of e @ reports_100 es"
  "reports_100 (es @ es') = reports_100 es @ reports_100 es'"
  by (simp_all add: reports_100_def)

lemma responses_HandleNew [simp]:
  "responses (map (\<lambda>l. HandleNewRecoveredSig l rs) ls) = []"
  "reports_100 (map (\<lambda>l. HandleNewRecoveredSig l rs) ls) = []"
  by (induction ls) simp_all

lemma ProcessRecoveredSig_accept_events:
  "\<exists>es. events (ProcessRecoveredSig_accept env n rs s) = events s @ es \<and>
        responses es = [] \<and> reports_100 es = []"
  by (auto simp: ProcessRecoveredSig_accept_def write_and_publish_def Let_def case_prod_beta
      events_emit split: option.splits)

lemma ProcessRecoveredSig_events:
  "\<exists>es. events (ProcessRecoveredSig env n rs s) = events s @ es \<and>
        responses es = [(n, GetHash rs)] \<and> reports_100 es = []"
proof -
  define s1 where "s1 = mark_received env n (GetHash rs) s"
  define s2 where "s2 = s1\<lparr>sigDb := snd (HasRecoveredSigForHash (GetHash rs) (sigDb s1))\<rparr>"
  have e1: "events s1 = events s @ (if GetPeerRef env n then [AddKnownTx n (GetHash rs)] else []) @
      [ReceivedResponse n (GetHash rs)]"
    by (simp add: s1_def mark_received_def events_emit)
  have e2: "events s2 = events s1" by (simp add: s2_def)
  obtain es2 where es2: "events (ProcessRecoveredSig_accept env n rs s2) = events s2 @ es2"
    "responses es2 = []" "reports_100 es2 = []"
    using ProcessRecoveredSig_accept_events [of env n rs s2] by blast
  have rej: "events (reject_recsig env n h msg reason s1) =
      events s1 @ [LogPrintf msg, ForgetTxHash n h] @
        (if GetPeerRef env n then [Misbehaving n 10 reason] else [])" for h msg reason
    by (simp add: reject_recsig_def events_emit)
  have cases:
    "(\<exists>h msg reason. ProcessRecoveredSig env n rs s = reject_recsig env n h msg reason s1) \<or>
     ProcessRecoveredSig env n rs s = emit [ForgetTxHash n (GetHash rs)] s2 \<or>
     ProcessRecoveredSig env n rs s = ProcessRecoveredSig_accept env n rs s2"
    by (auto simp: ProcessRecoveredSig_def Let_def case_prod_beta s1_def s2_def split: option.splits)
  then consider
    (a) h msg reason where "ProcessRecoveredSig env n rs s = reject_recsig env n h msg reason s1"
    | (b) "ProcessRecoveredSig env n rs s = emit [ForgetTxHash n (GetHash rs)] s2"
    | (c) "ProcessRecoveredSig env n rs s = ProcessRecoveredSig_accept env n rs s2"
    by blast
  then show ?thesis
  proof cases
    case a
    then show ?thesis by (simp add: rej e1)
  next
    case b
    then show ?thesis by (simp add: events_emit e2 e1)
  next
    case c
    then show ?thesis using es2 by (simp add: e2 e1)
  qed
qed

lemma new_events_append: "events s' = events s @ es \<Longrightarrow> new_events s s' = es"
  by (simp add: new_events_def)

lemma new_events_same [simp]: "new_events s s = []"
  by (simp add: new_events_def)

lemma grows_trans:
  assumes "events s1 = events s @ new_events s s1"
      and "events s2 = events s1 @ new_events s1 s2"
  shows "events s2 = events s @ new_events s s2"
    and "new_events s s2 = new_events s s1 @ new_events s1 s2"
proof -
  have "events s2 = events s @ (new_events s s1 @ new_events s1 s2)"
    using assms by simp
  then show "new_events s s2 = new_events s s1 @ new_events s1 s2"
    by (rule new_events_append)
  then show "events s2 = events s @ new_events s s2"
    using assms by simp
qed

lemma ProcessRecoveredSig_new_events:
  "events (ProcessRecoveredSig env n rs s) = events s @ new_events s (ProcessRecoveredSig env n rs s)"
  "responses (new_events s (ProcessRecoveredSig env n rs s)) = [(n, GetHash rs)]"
  "reports_100 (new_events s (ProcessRecoveredSig env n rs s)) = []"
proof -
  obtain es where es: "events (ProcessRecoveredSig env n rs s) = events s @ es"
    "responses es = [(n, GetHash rs)]" "reports_100 es = []"
    using ProcessRecoveredSig_events [of env n rs s] by (elim exE conjE)
  have ne: "new_events s (ProcessRecoveredSig env n rs s) = es"
    by (rule new_events_append [OF es(1)])
  show "events (ProcessRecoveredSig env n rs s) = events s @ new_events s (ProcessRecoveredSig env n rs s)"
    by (simp add: ne es(1))
  show "responses (new_events s (ProcessRecoveredSig env n rs s)) = [(n, GetHash rs)]"
    by (simp add: ne es(2))
  show "reports_100 (new_events s (ProcessRecoveredSig env n rs s)) = []"
    by (simp add: ne es(3))
qed

lemma process_node_sigs_processed:
  "fst (process_node_sigs env n v ps) = fst ps \<union> GetHash ` set v"
proof (induction v arbitrary: ps)
  case Nil
  show ?case by simp
next
  case (Cons rs v)
  show ?case
  proof (cases "GetHash rs \<in> fst ps")
    case True
    have "fst (process_node_sigs env n (rs # v) ps) = fst ps \<union> GetHash ` set v"
      using True Cons.IH [of ps] by simp
    also have "\<dots> = fst ps \<union> GetHash ` set (rs # v)" using True by auto
    finally show ?thesis .
  next
    case False
    have "fst (process_node_sigs env n (rs # v) ps) =
        insert (GetHash rs) (fst ps) \<union> GetHash ` set v"
      using False
        Cons.IH [of "(insert (GetHash rs) (fst ps), ProcessRecoveredSig env n rs (snd ps))"]
      by simp
    also have "\<dots> = fst ps \<union> GetHash ` set (rs # v)" by auto
    finally show ?thesis .
  qed
qed

lemma process_node_sigs_new_events:
  "events (snd (process_node_sigs env n v ps)) =
     events (snd ps) @ new_events (snd ps) (snd (process_node_sigs env n v ps)) \<and>
   responses (new_events (snd ps) (snd (process_node_sigs env n v ps))) =
     map (Pair n) (fresh_hashes (fst ps) v) \<and>
   reports_100 (new_events (snd ps) (snd (process_node_sigs env n v ps))) = []"
proof (induction v arbitrary: ps)
  case Nil
  show ?case by simp
next
  case (Cons rs v)
  show ?case
  proof (cases "GetHash rs \<in> fst ps")
    case True
    then have run: "process_node_sigs env n (rs # v) ps = process_node_sigs env n v ps" by simp
    show ?thesis unfolding run using Cons.IH [of ps] True by simp
  next
    case False
    define s1 where "s1 = ProcessRecoveredSig env n rs (snd ps)"
    define ps1 where "ps1 = (insert (GetHash rs) (fst ps), s1)"
    have run: "process_node_sigs env n (rs # v) ps = process_node_sigs env n v ps1"
      using False by (simp add: ps1_def s1_def)
    define s2 where "s2 = snd (process_node_sigs env n v ps1)"
    have g1: "events s1 = events (snd ps) @ new_events (snd ps) s1"
      and r1: "responses (new_events (snd ps) s1) = [(n, GetHash rs)]"
      and m1: "reports_100 (new_events (snd ps) s1) = []"
      unfolding s1_def by (rule ProcessRecoveredSig_new_events)+
    have ih: "events s2 = events s1 @ new_events s1 s2"
      "responses (new_events s1 s2) = map (Pair n) (fresh_hashes (insert (GetHash rs) (fst ps)) v)"
      "reports_100 (new_events s1 s2) = []"
      using Cons.IH [of ps1] by (simp_all add: s2_def ps1_def)
    note tr = grows_trans [OF g1 ih(1)]
    show ?thesis
      unfolding run s2_def [symmetric]
      using tr r1 m1 ih(2,3) False by simp
  qed
qed

lemma process_all_nodes_new_events:
  "events (snd (process_all_nodes env bad rsbn ps)) =
     events (snd ps) @ new_events (snd ps) (snd (process_all_nodes env bad rsbn ps)) \<and>
   responses (new_events (snd ps) (snd (process_all_nodes env bad rsbn ps))) =
     planned_calls bad rsbn (fst ps) \<and>
   reports_100 (new_events (snd ps) (snd (process_all_nodes env bad rsbn ps))) =
     filter (\<lambda>n. n \<in> bad \<and> GetPeerRef env n) (map fst rsbn)"
proof (induction rsbn arbitrary: ps)
  case Nil
  show ?case by simp
next
  case (Cons nv rest)
  obtain n v where nv: "nv = (n, v)" by (cases nv)
  show ?case
  proof (cases "n \<in> bad")
    case True
    define es1 :: "'a event list" where
      "es1 = (if GetPeerRef env n then [Misbehaving n 100 ''invalid recSig from other node''] else [])"
    define s1 where "s1 = emit es1 (snd ps)"
    define ps1 where "ps1 = (fst ps, s1)"
    have run: "process_all_nodes env bad (nv # rest) ps = process_all_nodes env bad rest ps1"
      unfolding nv using True by (simp add: ps1_def s1_def es1_def)
    define s2 where "s2 = snd (process_all_nodes env bad rest ps1)"
    have ne1: "new_events (snd ps) s1 = es1"
      by (rule new_events_append) (simp add: s1_def events_emit)
    have g1: "events s1 = events (snd ps) @ new_events (snd ps) s1"
      by (simp add: ne1) (simp add: s1_def events_emit)
    have r1: "responses es1 = []" "reports_100 es1 = (if GetPeerRef env n then [n] else [])"
      by (simp_all add: es1_def)
    have ih: "events s2 = events s1 @ new_events s1 s2"
      "responses (new_events s1 s2) = planned_calls bad rest (fst ps)"
      "reports_100 (new_events s1 s2) = filter (\<lambda>n. n \<in> bad \<and> GetPeerRef env n) (map fst rest)"
      using Cons.IH [of ps1] by (simp_all add: s2_def ps1_def)
    note tr = grows_trans [OF g1 ih(1)]
    have pc: "planned_calls bad (nv # rest) (fst ps) = planned_calls bad rest (fst ps)"
      unfolding nv using True by simp
    have fl: "filter (\<lambda>n. n \<in> bad \<and> GetPeerRef env n) (map fst (nv # rest)) =
        (if GetPeerRef env n then [n] else []) @
        filter (\<lambda>n. n \<in> bad \<and> GetPeerRef env n) (map fst rest)"
      unfolding nv using True by simp
    show ?thesis
      unfolding run s2_def [symmetric] pc fl
      using tr ne1 r1 ih(2,3) by simp
  next
    case False
    define ps1 where "ps1 = process_node_sigs env n v ps"
    define s1 where "s1 = snd ps1"
    have run: "process_all_nodes env bad (nv # rest) ps = process_all_nodes env bad rest ps1"
      unfolding nv using False by (simp add: ps1_def)
    define s2 where "s2 = snd (process_all_nodes env bad rest ps1)"
    have f1: "fst ps1 = fst ps \<union> GetHash ` set v"
      unfolding ps1_def by (rule process_node_sigs_processed)
    have g1: "events s1 = events (snd ps) @ new_events (snd ps) s1"
      and r1: "responses (new_events (snd ps) s1) = map (Pair n) (fresh_hashes (fst ps) v)"
      and m1: "reports_100 (new_events (snd ps) s1) = []"
      using process_node_sigs_new_events [of env n v ps] by (simp_all add: s1_def ps1_def)
    have ih: "events s2 = events s1 @ new_events s1 s2"
      "responses (new_events s1 s2) = planned_calls bad rest (fst ps \<union> GetHash ` set v)"
      "reports_100 (new_events s1 s2) = filter (\<lambda>n. n \<in> bad \<and> GetPeerRef env n) (map fst rest)"
      using Cons.IH [of ps1] by (simp_all add: s2_def s1_def f1)
    note tr = grows_trans [OF g1 ih(1)]
    have pc: "planned_calls bad (nv # rest) (fst ps) =
        map (Pair n) (fresh_hashes (fst ps) v) @ planned_calls bad rest (fst ps \<union> GetHash ` set v)"
      unfolding nv using False by simp
    have fl: "filter (\<lambda>n. n \<in> bad \<and> GetPeerRef env n) (map fst (nv # rest)) =
        filter (\<lambda>n. n \<in> bad \<and> GetPeerRef env n) (map fst rest)"
      unfolding nv using False by simp
    show ?thesis
      unfolding run s2_def [symmetric] pc fl
      using tr r1 m1 ih(2,3) by simp
  qed
qed

subsection \<open>The calls of the second loop\<close>

lemma set_fresh_hashes: "set (fresh_hashes P v) = GetHash ` set v - P"
  by (induction v arbitrary: P) auto

lemma distinct_fresh_hashes: "distinct (fresh_hashes P v)"
  by (induction v arbitrary: P) (auto simp: set_fresh_hashes)

lemma planned_calls_sound:
  "(m, k) \<in> set (planned_calls bad rsbn P) \<Longrightarrow>
     m \<notin> bad \<and> k \<notin> P \<and> (\<exists>nv \<in> set rsbn. fst nv = m \<and> k \<in> GetHash ` set (snd nv))"
proof (induction rsbn arbitrary: P)
  case Nil
  then show ?case by simp
next
  case (Cons nv rest)
  obtain n v where nv: "nv = (n, v)" by (cases nv)
  show ?case
  proof (cases "n \<in> bad")
    case True
    then have "(m, k) \<in> set (planned_calls bad rest P)" using Cons.prems nv by simp
    from Cons.IH [OF this] show ?thesis by auto
  next
    case False
    then consider (here) "m = n" "k \<in> GetHash ` set v - P"
      | (later) "(m, k) \<in> set (planned_calls bad rest (P \<union> GetHash ` set v))"
      using Cons.prems nv by (auto simp: set_fresh_hashes)
    then show ?thesis
    proof cases
      case here
      then show ?thesis using False nv by auto
    next
      case later
      from Cons.IH [OF this] show ?thesis by auto
    qed
  qed
qed

lemma planned_calls_complete:
  assumes "nv \<in> set rsbn" and "fst nv \<notin> bad" and "rs \<in> set (snd nv)" and "GetHash rs \<notin> P"
  shows "\<exists>m. m \<notin> bad \<and> (m, GetHash rs) \<in> set (planned_calls bad rsbn P)"
  using assms
proof (induction rsbn arbitrary: P)
  case Nil
  then show ?case by simp
next
  case (Cons x rest)
  obtain n v where x: "x = (n, v)" by (cases x)
  show ?case
  proof (cases "n \<in> bad")
    case True
    then have "nv \<in> set rest" using Cons.prems(1,2) x by auto
    from Cons.IH [OF this Cons.prems(2,3,4)] show ?thesis using True x by auto
  next
    case False
    show ?thesis
    proof (cases "GetHash rs \<in> GetHash ` set v")
      case True
      then have "(n, GetHash rs) \<in> set (planned_calls bad (x # rest) P)"
        using False x Cons.prems(4) by (simp add: set_fresh_hashes)
      then show ?thesis using False by blast
    next
      case nh: False
      then have "nv \<noteq> x" using Cons.prems(3) x by auto
      then have in_rest: "nv \<in> set rest" using Cons.prems(1) by simp
      have "GetHash rs \<notin> P \<union> GetHash ` set v" using nh Cons.prems(4) by simp
      from Cons.IH [OF in_rest Cons.prems(2,3) this] obtain m where
        "m \<notin> bad" "(m, GetHash rs) \<in> set (planned_calls bad rest (P \<union> GetHash ` set v))"
        by blast
      then show ?thesis using False x by auto
    qed
  qed
qed

lemma planned_calls_distinct: "distinct (map snd (planned_calls bad rsbn P))"
proof (induction rsbn arbitrary: P)
  case Nil
  show ?case by simp
next
  case (Cons x rest)
  obtain n v where x: "x = (n, v)" by (cases x)
  show ?case
  proof (cases "n \<in> bad")
    case True
    then show ?thesis using Cons.IH [of P] x by simp
  next
    case False
    have later: "k \<notin> P \<union> GetHash ` set v"
      if "k \<in> snd ` set (planned_calls bad rest (P \<union> GetHash ` set v))" for k
    proof -
      from that obtain m where "(m, k) \<in> set (planned_calls bad rest (P \<union> GetHash ` set v))"
        by force
      from planned_calls_sound [OF this] show ?thesis by simp
    qed
    have "map snd (map (Pair n) (fresh_hashes P v)) = fresh_hashes P v"
      by (simp add: comp_def)
    then have "distinct (map snd (map (Pair n) (fresh_hashes P v) @
        planned_calls bad rest (P \<union> GetHash ` set v)))"
      using Cons.IH [of "P \<union> GetHash ` set v"] later
      by (auto simp: distinct_fresh_hashes set_fresh_hashes simp del: map_map)
    then show ?thesis using False x by simp
  qed
qed

lemma verify_and_process_one_bad_source:
  assumes quorums: "\<forall>nv \<in> set recSigsByNode. \<forall>rs \<in> set (snd nv). quorums (quorumHash rs) \<noteq> None"
      and bad: "\<exists>nv \<in> set recSigsByNode. fst nv = b \<and> (\<exists>rs \<in> set (snd nv). \<not> recsig_valid env quorums rs)"
      and good: "\<forall>nv \<in> set recSigsByNode. fst nv \<noteq> b \<longrightarrow> (\<forall>rs \<in> set (snd nv). recsig_valid env quorums rs)"
  shows "\<exists>bv s'.
           push_all_sigs env quorums recSigsByNode \<lparr>badSources = {}, messages = []\<rparr> = Some bv \<and>
           badSources (Verify env bv) = {b} \<and>
           verify_and_process env recSigsByNode quorums s = Some (32 \<le> length recSigsByNode, s') \<and>
           events s' = events s @ new_events s s' \<and>
           reports_100 (new_events s s') = filter (\<lambda>n. n = b \<and> GetPeerRef env n) (map fst recSigsByNode) \<and>
           (\<forall>k. (b, k) \<notin> set (responses (new_events s s'))) \<and>
           (\<forall>nv \<in> set recSigsByNode. fst nv \<noteq> b \<longrightarrow>
              (\<forall>rs \<in> set (snd nv). \<exists>m. m \<noteq> b \<and> (m, GetHash rs) \<in> set (responses (new_events s s')))) \<and>
           distinct (map snd (responses (new_events s s')))"
proof -
  define bv0 :: "('a, 'b) CBLSBatchVerifier" where "bv0 = \<lparr>badSources = {}, messages = []\<rparr>"
  have f0: "flagged env bv0 = {}" by (simp add: flagged_def Verify_def bv0_def)
  obtain bv where bv: "push_all_sigs env quorums recSigsByNode bv0 = Some bv"
    and fl: "flagged env bv = flagged env bv0 \<union>
       {n. \<exists>nv \<in> set recSigsByNode. fst nv = n \<and> (\<exists>rs \<in> set (snd nv). \<not> recsig_valid env quorums rs)}"
    using push_all_sigs_flagged [OF quorums, of env bv0] by (elim exE conjE)
  have "{n. \<exists>nv \<in> set recSigsByNode. fst nv = n \<and> (\<exists>rs \<in> set (snd nv). \<not> recsig_valid env quorums rs)} = {b}"
  proof (rule set_eqI)
    fix n
    show "n \<in> {n. \<exists>nv \<in> set recSigsByNode. fst nv = n \<and>
                 (\<exists>rs \<in> set (snd nv). \<not> recsig_valid env quorums rs)} \<longleftrightarrow> n \<in> {b}"
    proof (cases "n = b")
      case True
      then show ?thesis using bad by simp
    next
      case False
      then show ?thesis using good by auto
    qed
  qed
  then have badset: "badSources (Verify env bv) = {b}"
    using fl f0 by (simp add: flagged_def)
  have ne: "recSigsByNode \<noteq> []" using bad by auto
  define s' where "s' = snd (process_all_nodes env {b} recSigsByNode ({}, s))"
  have run: "verify_and_process env recSigsByNode quorums s = Some (32 \<le> length recSigsByNode, s')"
    using ne bv badset by (simp add: verify_and_process_def bv0_def [symmetric] Let_def s'_def)
  note ev = process_all_nodes_new_events [of env "{b}" recSigsByNode "({}, s)", folded s'_def, simplified]
  have resp: "responses (new_events s s') = planned_calls {b} recSigsByNode {}" using ev by simp
  have rep: "reports_100 (new_events s s') = filter (\<lambda>n. n = b \<and> GetPeerRef env n) (map fst recSigsByNode)"
    using ev by simp
  have nob: "\<forall>k. (b, k) \<notin> set (responses (new_events s s'))"
  proof
    fix k
    show "(b, k) \<notin> set (responses (new_events s s'))"
    proof
      assume "(b, k) \<in> set (responses (new_events s s'))"
      then have "(b, k) \<in> set (planned_calls {b} recSigsByNode {})" by (simp add: resp)
      from planned_calls_sound [OF this] show False by simp
    qed
  qed
  have all: "\<forall>nv \<in> set recSigsByNode. fst nv \<noteq> b \<longrightarrow>
      (\<forall>rs \<in> set (snd nv). \<exists>m. m \<noteq> b \<and> (m, GetHash rs) \<in> set (responses (new_events s s')))"
  proof (intro ballI impI)
    fix nv rs
    assume a: "nv \<in> set recSigsByNode" "fst nv \<noteq> b" "rs \<in> set (snd nv)"
    have "fst nv \<notin> {b}" using a(2) by simp
    from planned_calls_complete [OF a(1) this a(3), of "{}"]
    show "\<exists>m. m \<noteq> b \<and> (m, GetHash rs) \<in> set (responses (new_events s s'))"
      by (simp add: resp)
  qed
  have dist: "distinct (map snd (responses (new_events s s')))"
    unfolding resp by (rule planned_calls_distinct)
  show ?thesis
    using bv [unfolded bv0_def] badset run ev nob all dist rep by blast
qed

subsection \<open>The quorums of the candidates\<close>

lemma collect_node_quorums_defined:
  "collect_node_quorums env v rq = (v', rq') \<Longrightarrow>
     (\<forall>h. rq h \<noteq> None \<longrightarrow> rq' h \<noteq> None) \<and> (\<forall>rs \<in> set v'. rq' (quorumHash rs) \<noteq> None)"
proof (induction v arbitrary: rq v' rq')
  case Nil
  then show ?case by simp
next
  case (Cons recSig v)
  show ?case
  proof (cases "rq (quorumHash recSig) = None")
    case known: False
    obtain w rq1 where r: "collect_node_quorums env v rq = (w, rq1)"
      by (cases "collect_node_quorums env v rq")
    have e: "v' = recSig # w" "rq' = rq1" using Cons.prems known r by simp_all
    from Cons.IH [OF r] have "\<forall>h. rq h \<noteq> None \<longrightarrow> rq1 h \<noteq> None"
      "\<forall>rs \<in> set w. rq1 (quorumHash rs) \<noteq> None"
      by simp_all
    then show ?thesis unfolding e using known by simp
  next
    case True
    show ?thesis
    proof (cases "GetQuorum env (quorumHash recSig)")
      case None
      then have "collect_node_quorums env v rq = (v', rq')" using Cons.prems True by simp
      from Cons.IH [OF this] show ?thesis .
    next
      case (Some quorum)
      show ?thesis
      proof (cases "IsQuorumActive env (qc_quorumHash quorum)")
        case False
        then have "collect_node_quorums env v rq = (v', rq')" using Cons.prems True Some by simp
        from Cons.IH [OF this] show ?thesis .
      next
        case active: True
        obtain w rq1 where
          r: "collect_node_quorums env v (rq(quorumHash recSig \<mapsto> quorum)) = (w, rq1)"
          by (cases "collect_node_quorums env v (rq(quorumHash recSig \<mapsto> quorum))")
        have e: "v' = recSig # w" "rq' = rq1" using Cons.prems True Some active r by simp_all
        from Cons.IH [OF r]
        have mono: "\<forall>h. (rq(quorumHash recSig \<mapsto> quorum)) h \<noteq> None \<longrightarrow> rq1 h \<noteq> None"
          and kept: "\<forall>rs \<in> set w. rq1 (quorumHash rs) \<noteq> None"
          by simp_all
        have here: "rq1 (quorumHash recSig) \<noteq> None"
          using mono [rule_format, of "quorumHash recSig"] by simp
        have "rq1 h \<noteq> None" if "rq h \<noteq> None" for h
          using mono [rule_format, of h] that by simp
        then show ?thesis unfolding e using here kept by simp
      qed
    qed
  qed
qed

lemma collect_quorums_defined:
  "collect_quorums env rsbn rq = (rsbn', rq') \<Longrightarrow>
     (\<forall>h. rq h \<noteq> None \<longrightarrow> rq' h \<noteq> None) \<and>
     (\<forall>nv \<in> set rsbn'. \<forall>rs \<in> set (snd nv). rq' (quorumHash rs) \<noteq> None)"
proof (induction rsbn arbitrary: rq rsbn' rq')
  case Nil
  then show ?case by simp
next
  case (Cons x rest)
  obtain n v where x: "x = (n, v)" by (cases x)
  obtain w rq1 where a: "collect_node_quorums env v rq = (w, rq1)"
    by (cases "collect_node_quorums env v rq")
  obtain rest' rq2 where b: "collect_quorums env rest rq1 = (rest', rq2)"
    by (cases "collect_quorums env rest rq1")
  have e: "rsbn' = (n, w) # rest'" "rq' = rq2" using Cons.prems x a b by simp_all
  from collect_node_quorums_defined [OF a]
  have 1: "\<forall>h. rq h \<noteq> None \<longrightarrow> rq1 h \<noteq> None" "\<forall>rs \<in> set w. rq1 (quorumHash rs) \<noteq> None"
    by simp_all
  from Cons.IH [OF b]
  have 2: "\<forall>h. rq1 h \<noteq> None \<longrightarrow> rq2 h \<noteq> None"
    "\<forall>nv \<in> set rest'. \<forall>rs \<in> set (snd nv). rq2 (quorumHash rs) \<noteq> None"
    by simp_all
  have 3: "\<forall>rs \<in> set w. rq2 (quorumHash rs) \<noteq> None"
  proof
    fix rs assume "rs \<in> set w"
    then have "rq1 (quorumHash rs) \<noteq> None" using 1(2) by simp
    then show "rq2 (quorumHash rs) \<noteq> None" using 2(1) [rule_format, of "quorumHash rs"] by simp
  qed
  have 4: "rq2 h \<noteq> None" if "rq h \<noteq> None" for h
    using 1(1) [rule_format, of h] 2(1) [rule_format, of h] that by simp
  show ?case unfolding e using 2(2) 3 4 by simp
qed

subsection \<open>What a call of ProcessRecoveredSig does to another candidate\<close>

lemma HasRecoveredSigForHash_after_lookup:
  "fst (HasRecoveredSigForHash h (snd (HasRecoveredSigForHash h' d))) = fst (HasRecoveredSigForHash h d)"
  "fst (HasRecoveredSigForHash h (snd (HasRecoveredSigForId i' d))) = fst (HasRecoveredSigForHash h d)"
  by (simp_all add: HasRecoveredSigForHash_def HasRecoveredSigForId_def Let_def split: option.splits)

lemma HasRecoveredSigForId_after_lookup:
  "fst (HasRecoveredSigForId i (snd (HasRecoveredSigForHash h' d))) = fst (HasRecoveredSigForId i d)"
  "fst (HasRecoveredSigForId i (snd (HasRecoveredSigForId i' d))) = fst (HasRecoveredSigForId i d)"
  by (simp_all add: HasRecoveredSigForHash_def HasRecoveredSigForId_def Let_def split: option.splits)

lemma HasRecoveredSigForHash_after_write:
  "GetHash rs' \<noteq> h \<Longrightarrow>
     fst (HasRecoveredSigForHash h (WriteRecoveredSig bsh now rs' d)) = fst (HasRecoveredSigForHash h d)"
  by (simp add: HasRecoveredSigForHash_def WriteRecoveredSig_caches WriteRecoveredSig_db db_Exists_def
      Let_def split: option.splits)

lemma HasRecoveredSigForId_after_write:
  "id' rs' \<noteq> i \<Longrightarrow>
     fst (HasRecoveredSigForId i (WriteRecoveredSig bsh now rs' d)) = fst (HasRecoveredSigForId i d)"
  by (simp add: HasRecoveredSigForId_def WriteRecoveredSig_caches WriteRecoveredSig_db db_Exists_def
      Let_def split: option.splits)

lemma GetRecoveredSigById_after_write:
  "GetRecoveredSigById (id' rs) (WriteRecoveredSig bsh now rs d) = Some rs"
  "id' rs' \<noteq> i \<Longrightarrow> GetRecoveredSigById i (WriteRecoveredSig bsh now rs' d) = GetRecoveredSigById i d"
  by (simp_all add: GetRecoveredSigById_def ReadRecoveredSig_map_of WriteRecoveredSig_db)

lemma recsig_unknown_lookup:
  "recsig_unknown rs (snd (HasRecoveredSigForHash h' d)) = recsig_unknown rs d"
  "recsig_unknown rs (snd (HasRecoveredSigForId i' d)) = recsig_unknown rs d"
  by (simp_all add: recsig_unknown_def HasRecoveredSigForHash_after_lookup
      HasRecoveredSigForId_after_lookup)

lemma recsig_unknown_write:
  "id' rs' \<noteq> id' rs \<Longrightarrow> GetHash rs' \<noteq> GetHash rs \<Longrightarrow>
     recsig_unknown rs (WriteRecoveredSig bsh now rs' d) = recsig_unknown rs d"
  by (simp add: recsig_unknown_def HasRecoveredSigForHash_after_write
      HasRecoveredSigForId_after_write)

lemma recsig_stored_lookup:
  "recsig_stored rs d \<Longrightarrow> recsig_stored rs (snd (HasRecoveredSigForHash h' d))"
  "recsig_stored rs d \<Longrightarrow> recsig_stored rs (snd (HasRecoveredSigForId i' d))"
  by (auto simp: recsig_stored_def HasRecoveredSigForHash_def HasRecoveredSigForId_def Let_def
      GetRecoveredSigById_def ReadRecoveredSig_def split: option.splits)

lemma recsig_stored_write_other:
  "recsig_stored rs d \<Longrightarrow> id' rs' \<noteq> id' rs \<Longrightarrow> recsig_stored rs (WriteRecoveredSig bsh now rs' d)"
  by (simp add: recsig_stored_def WriteRecoveredSig_caches GetRecoveredSigById_after_write)

lemma recsig_stored_write: "recsig_stored rs (WriteRecoveredSig bsh now rs d)"
  by (simp add: recsig_stored_def WriteRecoveredSig_caches GetRecoveredSigById_after_write)

lemma recsig_stored_known:
  assumes "recsig_stored rs d"
  shows "fst (HasRecoveredSigForId (id' rs) d)" and "fst (HasRecoveredSigForHash (GetHash rs) d)"
    and "GetRecoveredSigById (id' rs) d = Some rs"
  using assms by (simp_all add: recsig_stored_def HasRecoveredSigForId_def HasRecoveredSigForHash_def)

lemma ProcessRecoveredSig_listeners:
  "recoveredSigsListeners (ProcessRecoveredSig env n rs s) = recoveredSigsListeners s"
  by (auto simp: ProcessRecoveredSig_def ProcessRecoveredSig_accept_def write_and_publish_def
      reject_recsig_def mark_received_def emit_def Let_def case_prod_beta split: option.splits)

lemma ProcessRecoveredSig_accept_sigDb:
  "sigDb (ProcessRecoveredSig_accept env n rs s) = snd (HasRecoveredSigForId (id' rs) (sigDb s)) \<or>
   (sigDb (ProcessRecoveredSig_accept env n rs s) =
      WriteRecoveredSig (buildSignHash env) (adjustedTime env) rs
        (snd (HasRecoveredSigForId (id' rs) (sigDb s))) \<and>
    (\<not> fst (HasRecoveredSigForId (id' rs) (sigDb s)) \<or>
     GetRecoveredSigById (id' rs) (snd (HasRecoveredSigForId (id' rs) (sigDb s))) = None))"
  by (auto simp: ProcessRecoveredSig_accept_def write_and_publish_def emit_def Let_def
      case_prod_beta split: option.splits)

lemma ProcessRecoveredSig_sigDb:
  "sigDb (ProcessRecoveredSig env n rs s) = sigDb s \<or>
   sigDb (ProcessRecoveredSig env n rs s) = snd (HasRecoveredSigForHash (GetHash rs) (sigDb s)) \<or>
   sigDb (ProcessRecoveredSig env n rs s) =
     sigDb (ProcessRecoveredSig_accept env n rs
       (mark_received env n (GetHash rs) s
          \<lparr>sigDb := snd (HasRecoveredSigForHash (GetHash rs) (sigDb s))\<rparr>))"
  by (auto simp: ProcessRecoveredSig_def reject_recsig_def mark_received_def emit_def Let_def
      case_prod_beta split: option.splits)

lemma ProcessRecoveredSig_keeps_unknown:
  assumes "recsig_unknown rs (sigDb s)" and "id' rs' \<noteq> id' rs" and "GetHash rs' \<noteq> GetHash rs"
  shows "recsig_unknown rs (sigDb (ProcessRecoveredSig env n rs' s))"
proof -
  define dH where "dH = snd (HasRecoveredSigForHash (GetHash rs') (sigDb s))"
  define s2 where "s2 = mark_received env n (GetHash rs') s\<lparr>sigDb := dH\<rparr>"
  have uH: "recsig_unknown rs dH" using assms(1) by (simp add: dH_def recsig_unknown_lookup)
  have s2: "sigDb s2 = dH" by (simp add: s2_def)
  have acc: "recsig_unknown rs (sigDb (ProcessRecoveredSig_accept env n rs' s2))"
    using ProcessRecoveredSig_accept_sigDb [of env n rs' s2] uH assms(2,3)
    by (auto simp: s2 recsig_unknown_lookup recsig_unknown_write)
  show ?thesis
    using ProcessRecoveredSig_sigDb [of env n rs' s] assms(1) uH acc
    by (auto simp: dH_def s2_def)
qed

lemma ProcessRecoveredSig_keeps_stored:
  assumes "recsig_stored rs (sigDb s)"
  shows "recsig_stored rs (sigDb (ProcessRecoveredSig env n rs' s))"
proof -
  define dH where "dH = snd (HasRecoveredSigForHash (GetHash rs') (sigDb s))"
  define s2 where "s2 = mark_received env n (GetHash rs') s\<lparr>sigDb := dH\<rparr>"
  define dI where "dI = snd (HasRecoveredSigForId (id' rs') dH)"
  have sH: "recsig_stored rs dH" using assms by (simp add: dH_def recsig_stored_lookup)
  have sI: "recsig_stored rs dI" using sH by (simp add: dI_def recsig_stored_lookup)
  have s2: "sigDb s2 = dH" by (simp add: s2_def)
  have same: "fst (HasRecoveredSigForId (id' rs') dH) \<and> GetRecoveredSigById (id' rs') dI \<noteq> None"
    if "id' rs' = id' rs"
    using recsig_stored_known [OF sH] recsig_stored_known [OF sI] that by simp
  have acc: "recsig_stored rs (sigDb (ProcessRecoveredSig_accept env n rs' s2))"
  proof (cases "id' rs' = id' rs")
    case True
    then show ?thesis
      using ProcessRecoveredSig_accept_sigDb [of env n rs' s2] same sI
      by (auto simp: s2 dI_def)
  next
    case False
    then show ?thesis
      using ProcessRecoveredSig_accept_sigDb [of env n rs' s2] sI
      by (auto simp: s2 dI_def recsig_stored_write_other)
  qed
  show ?thesis
    using ProcessRecoveredSig_sigDb [of env n rs' s] assms sH acc
    by (auto simp: dH_def s2_def)
qed

lemma ProcessRecoveredSig_accepts:
  assumes "block_accepted env rs" and "recsig_unknown rs (sigDb s)"
  shows "recsig_stored rs (sigDb (ProcessRecoveredSig env n rs s))"
    and "\<forall>l \<in> set (recoveredSigsListeners s).
           HandleNewRecoveredSig l rs \<in> set (new_events s (ProcessRecoveredSig env n rs s))"
proof -
  define s1 where "s1 = mark_received env n (GetHash rs) s"
  define s3 where "s3 = s1\<lparr>sigDb := snd (HasRecoveredSigForId (id' rs)
      (snd (HasRecoveredSigForHash (GetHash rs) (sigDb s1))))\<rparr>"
  have s1db: "sigDb s1 = sigDb s" by (simp add: s1_def mark_received_fields)
  have nH: "\<not> fst (HasRecoveredSigForHash (GetHash rs) (sigDb s1))"
    and nI: "\<not> fst (HasRecoveredSigForId (id' rs) (snd (HasRecoveredSigForHash (GetHash rs) (sigDb s1))))"
    using assms(2) by (simp_all add: recsig_unknown_def s1db HasRecoveredSigForId_after_lookup)
  obtain pindex where blk: "LookupBlockIndex env (msgHash rs) = Some pindex"
    "nHeight pindex mod SIGN_HEIGHT_LOOKBACK env = 0" "ActiveChain_Contains env (msgHash rs)"
    "IsValid_SCRIPTS pindex"
    using assms(1) by (auto simp: block_accepted_def split: option.splits)
  have run: "ProcessRecoveredSig env n rs s = write_and_publish env n rs False s3"
    using blk nH nI
    by (simp add: ProcessRecoveredSig_def ProcessRecoveredSig_accept_def Let_def case_prod_beta
        s1_def [symmetric] s3_def)
  show "recsig_stored rs (sigDb (ProcessRecoveredSig env n rs s))"
    by (simp add: run write_and_publish_def Let_def emit_fields s3_def recsig_stored_write)
  have ev: "events (ProcessRecoveredSig env n rs s) =
      events s @ ((if GetPeerRef env n then [AddKnownTx n (GetHash rs)] else []) @
        [ReceivedResponse n (GetHash rs)] @
        (if fMasternodeMode env then [RelayRecoveredSig (GetHash rs)] else []) @
        map (\<lambda>l. HandleNewRecoveredSig l rs) (recoveredSigsListeners s) @
        [ForgetTxHash n (GetHash rs)])"
    by (simp add: run write_and_publish_def Let_def emit_def s3_def s1_def mark_received_def)
  show "\<forall>l \<in> set (recoveredSigsListeners s).
           HandleNewRecoveredSig l rs \<in> set (new_events s (ProcessRecoveredSig env n rs s))"
    unfolding new_events_append [OF ev] by simp
qed

subsection \<open>A candidate through the second loop\<close>

lemma round_pending_start: "recsig_unknown rs (sigDb s) \<Longrightarrow> round_pending rs s s"
  by (simp add: round_pending_def)

lemma round_pending_emit: "round_pending rs s0 s \<Longrightarrow> round_pending rs s0 (emit es s)"
proof -
  assume a: "round_pending rs s0 s"
  then have ev: "events s = events s0 @ new_events s0 s" by (simp add: round_pending_def)
  have "events (emit es s) = events s0 @ (new_events s0 s @ es)"
    using ev by (simp add: emit_fields)
  then have "new_events s0 (emit es s) = new_events s0 s @ es" by (rule new_events_append)
  then show ?thesis using a by (simp add: round_pending_def emit_fields)
qed

lemma round_accepted_emit: "round_accepted rs s0 s \<Longrightarrow> round_accepted rs s0 (emit es s)"
proof -
  assume a: "round_accepted rs s0 s"
  then have ev: "events s = events s0 @ new_events s0 s" by (simp add: round_accepted_def)
  have "events (emit es s) = events s0 @ (new_events s0 s @ es)"
    using ev by (simp add: emit_fields)
  then have "new_events s0 (emit es s) = new_events s0 s @ es" by (rule new_events_append)
  then show ?thesis using a by (simp add: round_accepted_def emit_fields list_all_iff)
qed

lemma round_pending_other:
  assumes "round_pending rs s0 s" and "id' rs' \<noteq> id' rs" and "GetHash rs' \<noteq> GetHash rs"
  shows "round_pending rs s0 (ProcessRecoveredSig env n rs' s)"
proof -
  have ev: "events s = events s0 @ new_events s0 s" using assms(1) by (simp add: round_pending_def)
  have un: "recsig_unknown rs (sigDb s)" using assms(1) by (simp add: round_pending_def)
  have ls: "recoveredSigsListeners s = recoveredSigsListeners s0"
    using assms(1) by (simp add: round_pending_def)
  note g = grows_trans [OF ev ProcessRecoveredSig_new_events(1) [of env n rs' s]]
  show ?thesis
    unfolding round_pending_def
    using ProcessRecoveredSig_keeps_unknown [OF un assms(2,3), of env n] g(1) ls
    by (simp add: ProcessRecoveredSig_listeners)
qed

lemma round_accepted_step:
  assumes "round_accepted rs s0 s"
  shows "round_accepted rs s0 (ProcessRecoveredSig env n rs' s)"
proof -
  have ev: "events s = events s0 @ new_events s0 s" using assms by (simp add: round_accepted_def)
  have st: "recsig_stored rs (sigDb s)" using assms by (simp add: round_accepted_def)
  have ls: "recoveredSigsListeners s = recoveredSigsListeners s0"
    using assms by (simp add: round_accepted_def)
  have pub: "list_all (\<lambda>l. HandleNewRecoveredSig l rs \<in> set (new_events s0 s))
      (recoveredSigsListeners s0)"
    using assms by (simp add: round_accepted_def)
  note g = grows_trans [OF ev ProcessRecoveredSig_new_events(1) [of env n rs' s]]
  have pub': "list_all (\<lambda>l. HandleNewRecoveredSig l rs \<in>
      set (new_events s0 (ProcessRecoveredSig env n rs' s))) (recoveredSigsListeners s0)"
    using pub unfolding g(2) by (simp add: list_all_iff)
  show ?thesis
    unfolding round_accepted_def
    using ProcessRecoveredSig_keeps_stored [OF st, of env n rs'] g(1) ls pub'
    by (simp add: ProcessRecoveredSig_listeners)
qed

lemma round_accepted_now:
  assumes "round_pending rs s0 s" and "block_accepted env rs"
  shows "round_accepted rs s0 (ProcessRecoveredSig env n rs s)"
proof -
  have ev: "events s = events s0 @ new_events s0 s" using assms(1) by (simp add: round_pending_def)
  have un: "recsig_unknown rs (sigDb s)" using assms(1) by (simp add: round_pending_def)
  have ls: "recoveredSigsListeners s = recoveredSigsListeners s0"
    using assms(1) by (simp add: round_pending_def)
  note g = grows_trans [OF ev ProcessRecoveredSig_new_events(1) [of env n rs s]]
  note acc = ProcessRecoveredSig_accepts [OF assms(2) un, of n]
  have pub: "list_all (\<lambda>l. HandleNewRecoveredSig l rs \<in>
      set (new_events s0 (ProcessRecoveredSig env n rs s))) (recoveredSigsListeners s0)"
    using acc(2) unfolding g(2) by (simp add: list_all_iff ls)
  show ?thesis
    unfolding round_accepted_def
    using acc(1) g(1) ls pub by (simp add: ProcessRecoveredSig_listeners)
qed

lemma process_node_sigs_accepted:
  "round_accepted rs s0 (snd ps) \<Longrightarrow> round_accepted rs s0 (snd (process_node_sigs env n v ps))"
proof (induction v arbitrary: ps)
  case Nil
  then show ?case by simp
next
  case (Cons r v)
  show ?case
  proof (cases "GetHash r \<in> fst ps")
    case True
    then show ?thesis using Cons.IH [OF Cons.prems] by simp
  next
    case False
    have "round_accepted rs s0
        (snd (insert (GetHash r) (fst ps), ProcessRecoveredSig env n r (snd ps)))"
      using round_accepted_step [OF Cons.prems] by simp
    from Cons.IH [OF this] show ?thesis using False by simp
  qed
qed

lemma process_node_sigs_pending:
  assumes "round_pending rs s0 (snd ps)" and "GetHash rs \<notin> fst ps"
      and "\<forall>r \<in> set v. r \<noteq> rs \<longrightarrow> id' r \<noteq> id' rs \<and> GetHash r \<noteq> GetHash rs"
      and "block_accepted env rs"
  shows "if rs \<in> set v then round_accepted rs s0 (snd (process_node_sigs env n v ps))
         else round_pending rs s0 (snd (process_node_sigs env n v ps)) \<and>
              GetHash rs \<notin> fst (process_node_sigs env n v ps)"
  using assms(1,2,3)
proof (induction v arbitrary: ps)
  case Nil
  then show ?case by simp
next
  case (Cons r v)
  have rest: "\<forall>r \<in> set v. r \<noteq> rs \<longrightarrow> id' r \<noteq> id' rs \<and> GetHash r \<noteq> GetHash rs"
    using Cons.prems(3) by simp
  show ?case
  proof (cases "r = rs")
    case True
    have "round_accepted rs s0
        (snd (insert (GetHash rs) (fst ps), ProcessRecoveredSig env n rs (snd ps)))"
      using round_accepted_now [OF Cons.prems(1) assms(4)] by simp
    from process_node_sigs_accepted [OF this]
    show ?thesis using True Cons.prems(2) by simp
  next
    case False
    then have diff: "id' r \<noteq> id' rs" "GetHash r \<noteq> GetHash rs" using Cons.prems(3) by simp_all
    show ?thesis
    proof (cases "GetHash r \<in> fst ps")
      case True
      then show ?thesis using Cons.IH [OF Cons.prems(1,2) rest] False by simp
    next
      case nk: False
      have 1: "round_pending rs s0
          (snd (insert (GetHash r) (fst ps), ProcessRecoveredSig env n r (snd ps)))"
        using round_pending_other [OF Cons.prems(1) diff] by simp
      have 2: "GetHash rs \<notin> fst (insert (GetHash r) (fst ps), ProcessRecoveredSig env n r (snd ps))"
        using Cons.prems(2) diff(2) by simp
      from Cons.IH [OF 1 2 rest] show ?thesis using False nk by simp
    qed
  qed
qed

lemma process_all_nodes_accepted:
  "round_accepted rs s0 (snd ps) \<Longrightarrow> round_accepted rs s0 (snd (process_all_nodes env bad rsbn ps))"
proof (induction rsbn arbitrary: ps)
  case Nil
  then show ?case by simp
next
  case (Cons x rest)
  obtain n v where x: "x = (n, v)" by (cases x)
  show ?case
  proof (cases "n \<in> bad")
    case True
    have "round_accepted rs s0 (snd (fst ps,
        emit (if GetPeerRef env n then [Misbehaving n 100 ''invalid recSig from other node'']
              else []) (snd ps)))"
      using round_accepted_emit [OF Cons.prems] by simp
    from Cons.IH [OF this] show ?thesis using True x by simp
  next
    case False
    from Cons.IH [OF process_node_sigs_accepted [OF Cons.prems]]
    show ?thesis using False x by simp
  qed
qed

lemma process_all_nodes_pending:
  assumes "round_pending rs s0 (snd ps)" and "GetHash rs \<notin> fst ps"
      and "\<forall>nv \<in> set rsbn. fst nv \<notin> bad \<longrightarrow>
             (\<forall>r \<in> set (snd nv). r \<noteq> rs \<longrightarrow> id' r \<noteq> id' rs \<and> GetHash r \<noteq> GetHash rs)"
      and "block_accepted env rs"
  shows "if \<exists>nv \<in> set rsbn. fst nv \<notin> bad \<and> rs \<in> set (snd nv)
         then round_accepted rs s0 (snd (process_all_nodes env bad rsbn ps))
         else round_pending rs s0 (snd (process_all_nodes env bad rsbn ps)) \<and>
              GetHash rs \<notin> fst (process_all_nodes env bad rsbn ps)"
  using assms(1,2,3)
proof (induction rsbn arbitrary: ps)
  case Nil
  then show ?case by simp
next
  case (Cons x rest)
  obtain n v where x: "x = (n, v)" by (cases x)
  have others: "\<forall>nv \<in> set rest. fst nv \<notin> bad \<longrightarrow>
      (\<forall>r \<in> set (snd nv). r \<noteq> rs \<longrightarrow> id' r \<noteq> id' rs \<and> GetHash r \<noteq> GetHash rs)"
    using Cons.prems(3) by simp
  show ?case
  proof (cases "n \<in> bad")
    case True
    have 1: "round_pending rs s0 (snd (fst ps,
        emit (if GetPeerRef env n then [Misbehaving n 100 ''invalid recSig from other node'']
              else []) (snd ps)))"
      using round_pending_emit [OF Cons.prems(1)] by simp
    have 2: "GetHash rs \<notin> fst (fst ps,
        emit (if GetPeerRef env n then [Misbehaving n 100 ''invalid recSig from other node'']
              else []) (snd ps))"
      using Cons.prems(2) by simp
    from Cons.IH [OF 1 2 others] show ?thesis using True x by simp
  next
    case False
    have here: "\<forall>r \<in> set v. r \<noteq> rs \<longrightarrow> id' r \<noteq> id' rs \<and> GetHash r \<noteq> GetHash rs"
      using Cons.prems(3) False x by simp
    note node = process_node_sigs_pending [OF Cons.prems(1,2) here assms(4), of n]
    show ?thesis
    proof (cases "rs \<in> set v")
      case True
      then have "round_accepted rs s0 (snd (process_node_sigs env n v ps))" using node by simp
      from process_all_nodes_accepted [OF this]
      show ?thesis using True False x by auto
    next
      case nothere: False
      then have 1: "round_pending rs s0 (snd (process_node_sigs env n v ps))"
        and 2: "GetHash rs \<notin> fst (process_node_sigs env n v ps)"
        using node by simp_all
      from Cons.IH [OF 1 2 others] show ?thesis using nothere False x by simp
    qed
  qed
qed

subsection \<open>One origin with an invalid candidate\<close>

lemma process_all_nodes_accepts:
  assumes nv: "nv \<in> set rsbn" "fst nv \<noteq> b" "rs \<in> set (snd nv)"
      and blk: "block_accepted env rs"
      and unk: "recsig_unknown rs (sigDb s)"
      and sole: "sole_candidate b rsbn rs"
  shows "round_accepted rs s (snd (process_all_nodes env {b} rsbn ({}, s)))"
proof -
  have 1: "round_pending rs s (snd ({}, s))" using round_pending_start [OF unk] by simp
  have 2: "GetHash rs \<notin> fst ({} :: uint256 set, s)" by simp
  have 3: "\<forall>nv \<in> set rsbn. fst nv \<notin> {b} \<longrightarrow>
      (\<forall>r \<in> set (snd nv). r \<noteq> rs \<longrightarrow> id' r \<noteq> id' rs \<and> GetHash r \<noteq> GetHash rs)"
    using sole by (simp add: sole_candidate_def)
  have 4: "\<exists>nv \<in> set rsbn. fst nv \<notin> {b} \<and> rs \<in> set (snd nv)"
    using nv by auto
  from process_all_nodes_pending [OF 1 2 3 blk] 4 show ?thesis by simp
qed

lemma round_accepted_result:
  assumes "round_accepted rs s s'"
  shows "GetRecoveredSigById (id' rs) (sigDb s') = Some rs"
    and "fst (HasRecoveredSigForHash (GetHash rs) (sigDb s'))"
    and "\<forall>l \<in> set (recoveredSigsListeners s). HandleNewRecoveredSig l rs \<in> set (new_events s s')"
  using assms recsig_stored_known [of rs "sigDb s'"]
  by (simp_all add: round_accepted_def list_all_iff)

text \<open>
  Claim C5, as amended. Take the candidates of a round as
  \<^verbatim>\<open>CollectPendingRecoveredSigsToVerify\<close> leaves them after looking up their quorums, from
  any number of origins, and let exactly one origin \<open>b\<close> contribute a candidate that is
  invalid: its signature is not structurally valid, or it does not verify against the
  public key of its quorum. Then \<^verbatim>\<open>ProcessPendingRecoveredSigs\<close> completes; the batch
  verifier ends with \<open>b\<close> as its only bad source; \<open>b\<close> is reported to the peer manager with
  the score 100 exactly when the peer manager still knows it, and no other origin is; none
  of the candidates of \<open>b\<close> reaches \<^verbatim>\<open>ProcessRecoveredSig\<close>; every candidate of every other
  origin is handed to \<^verbatim>\<open>ProcessRecoveredSig\<close> by an origin other than \<open>b\<close>, a content hash
  once in the round. Such a candidate is accepted (after the round the store holds it
  under its id and knows its content hash, and every listener was handed it) when the
  block that its message hash names passes the checks of \<^verbatim>\<open>ProcessRecoveredSig\<close>, the store
  knew neither its content hash nor a recovered signature for its id before the round,
  and no other candidate of the good origins carries its id or its content hash.
\<close>

theorem ProcessPendingRecoveredSigs_one_bad_origin:
  assumes collected: "collect_quorums env retSigShares Map.empty = (recSigsByNode, quorums)"
      and bad: "\<exists>nv \<in> set recSigsByNode. fst nv = b \<and> (\<exists>rs \<in> set (snd nv). \<not> recsig_valid env quorums rs)"
      and good: "\<forall>nv \<in> set recSigsByNode. fst nv \<noteq> b \<longrightarrow> (\<forall>rs \<in> set (snd nv). recsig_valid env quorums rs)"
  shows "\<exists>bv s'.
           push_all_sigs env quorums recSigsByNode \<lparr>badSources = {}, messages = []\<rparr> = Some bv \<and>
           badSources (Verify env bv) = {b} \<and>
           verify_and_process env recSigsByNode quorums s = Some (32 \<le> length recSigsByNode, s') \<and>
           events s' = events s @ new_events s s' \<and>
           reports_100 (new_events s s') = filter (\<lambda>n. n = b \<and> GetPeerRef env n) (map fst recSigsByNode) \<and>
           (\<forall>k. (b, k) \<notin> set (responses (new_events s s'))) \<and>
           distinct (map snd (responses (new_events s s'))) \<and>
           (\<forall>nv \<in> set recSigsByNode. fst nv \<noteq> b \<longrightarrow>
              (\<forall>rs \<in> set (snd nv).
                 (\<exists>m. m \<noteq> b \<and> (m, GetHash rs) \<in> set (responses (new_events s s'))) \<and>
                 (block_accepted env rs \<and> recsig_unknown rs (sigDb s) \<and>
                  sole_candidate b recSigsByNode rs \<longrightarrow>
                    GetRecoveredSigById (id' rs) (sigDb s') = Some rs \<and>
                    fst (HasRecoveredSigForHash (GetHash rs) (sigDb s')) \<and>
                    (\<forall>l \<in> set (recoveredSigsListeners s).
                       HandleNewRecoveredSig l rs \<in> set (new_events s s')))))"
proof -
  have q: "\<forall>nv \<in> set recSigsByNode. \<forall>rs \<in> set (snd nv). quorums (quorumHash rs) \<noteq> None"
    using collect_quorums_defined [OF collected] by simp
  from verify_and_process_one_bad_source [OF q bad good, of s]
  obtain bv s' where
    bv: "push_all_sigs env quorums recSigsByNode \<lparr>badSources = {}, messages = []\<rparr> = Some bv"
    and bs: "badSources (Verify env bv) = {b}"
    and run: "verify_and_process env recSigsByNode quorums s = Some (32 \<le> length recSigsByNode, s')"
    and ev: "events s' = events s @ new_events s s'"
    and rep: "reports_100 (new_events s s') =
        filter (\<lambda>n. n = b \<and> GetPeerRef env n) (map fst recSigsByNode)"
    and nob: "\<forall>k. (b, k) \<notin> set (responses (new_events s s'))"
    and all: "\<forall>nv \<in> set recSigsByNode. fst nv \<noteq> b \<longrightarrow>
        (\<forall>rs \<in> set (snd nv). \<exists>m. m \<noteq> b \<and> (m, GetHash rs) \<in> set (responses (new_events s s')))"
    and dist: "distinct (map snd (responses (new_events s s')))"
    by (elim exE conjE)
  have ne: "recSigsByNode \<noteq> []" using bad by auto
  have s': "s' = snd (process_all_nodes env {b} recSigsByNode ({}, s))"
    using run ne bv bs by (simp add: verify_and_process_def Let_def)
  have acc: "GetRecoveredSigById (id' rs) (sigDb s') = Some rs \<and>
      fst (HasRecoveredSigForHash (GetHash rs) (sigDb s')) \<and>
      (\<forall>l \<in> set (recoveredSigsListeners s). HandleNewRecoveredSig l rs \<in> set (new_events s s'))"
    if "nv \<in> set recSigsByNode" "fst nv \<noteq> b" "rs \<in> set (snd nv)" "block_accepted env rs"
      "recsig_unknown rs (sigDb s)" "sole_candidate b recSigsByNode rs" for nv rs
    using round_accepted_result [OF process_all_nodes_accepts [OF that]] unfolding s' [symmetric]
    by simp
  have both: "\<forall>nv \<in> set recSigsByNode. fst nv \<noteq> b \<longrightarrow>
      (\<forall>rs \<in> set (snd nv).
         (\<exists>m. m \<noteq> b \<and> (m, GetHash rs) \<in> set (responses (new_events s s'))) \<and>
         (block_accepted env rs \<and> recsig_unknown rs (sigDb s) \<and>
          sole_candidate b recSigsByNode rs \<longrightarrow>
            GetRecoveredSigById (id' rs) (sigDb s') = Some rs \<and>
            fst (HasRecoveredSigForHash (GetHash rs) (sigDb s')) \<and>
            (\<forall>l \<in> set (recoveredSigsListeners s).
               HandleNewRecoveredSig l rs \<in> set (new_events s s'))))"
  proof (intro ballI impI conjI)
    fix nv rs
    assume a: "nv \<in> set recSigsByNode" "fst nv \<noteq> b" "rs \<in> set (snd nv)"
    show "\<exists>m. m \<noteq> b \<and> (m, GetHash rs) \<in> set (responses (new_events s s'))"
      using all a by simp
    assume c: "block_accepted env rs \<and> recsig_unknown rs (sigDb s) \<and>
      sole_candidate b recSigsByNode rs"
    note r = acc [OF a]
    show "GetRecoveredSigById (id' rs) (sigDb s') = Some rs" using r c by simp
    show "fst (HasRecoveredSigForHash (GetHash rs) (sigDb s'))" using r c by simp
    fix l assume "l \<in> set (recoveredSigsListeners s)"
    then show "HandleNewRecoveredSig l rs \<in> set (new_events s s')" using r c by simp
  qed
  show ?thesis
    apply (rule exI [of _ bv])
    apply (rule exI [of _ s'])
    apply (intro conjI)
           apply (rule bv)
          apply (rule bs)
         apply (rule run)
        apply (rule ev)
       apply (rule rep)
      apply (rule nob)
     apply (rule dist)
    apply (rule both)
    done
qed

lemma ex_collect:
  "collect_quorums ex_env ex_pending Map.empty = (ex_collected, [1 \<mapsto> ex_quorum])"
  by (simp add: ex_pending_def ex_collected_def ex_env_def ex_quorum_def ex_recSig_b_def
      ex_recSig_c_def ex_recSig_d_def ex_recSig_forged_def ex_recSig_stray_def)

lemma ex_round_valid:
  "recsig_valid ex_env [1 \<mapsto> ex_quorum] ex_recSig_b"
  "recsig_valid ex_env [1 \<mapsto> ex_quorum] ex_recSig_c"
  "recsig_valid ex_env [1 \<mapsto> ex_quorum] ex_recSig_d"
  "\<not> recsig_valid ex_env [1 \<mapsto> ex_quorum] ex_recSig_forged"
  by (simp_all add: recsig_valid_def ex_env_def ex_recSig_b_def ex_recSig_c_def ex_recSig_d_def
      ex_recSig_forged_def)

lemma ex_round_unknown:
  "recsig_unknown ex_recSig_b (sigDb ex_mgr_empty)"
  "recsig_unknown ex_recSig_c (sigDb ex_mgr_empty)"
  "recsig_unknown ex_recSig_d (sigDb ex_mgr_empty)"
  by (simp_all add: recsig_unknown_def ex_mgr_empty_def ex_empty_db_def HasRecoveredSigForHash_def
      HasRecoveredSigForId_def db_Exists_def)

lemma ex_round_blocks:
  "block_accepted ex_env ex_recSig_b" "block_accepted ex_env ex_recSig_d"
  "\<not> block_accepted ex_env ex_recSig_c"
  by (simp_all add: block_accepted_def ex_env_def ex_recSig_b_def ex_recSig_c_def ex_recSig_d_def)

theorem ProcessPendingRecoveredSigs_one_bad_origin_witness:
  "collect_quorums ex_env ex_pending Map.empty = (ex_collected, [1 \<mapsto> ex_quorum]) \<and>
   \<not> recsig_valid ex_env [1 \<mapsto> ex_quorum] ex_recSig_forged \<and>
   block_accepted ex_env ex_recSig_b \<and> recsig_unknown ex_recSig_b (sigDb ex_mgr_empty) \<and>
   sole_candidate 8 ex_collected ex_recSig_b \<and>
   block_accepted ex_env ex_recSig_d \<and> recsig_unknown ex_recSig_d (sigDb ex_mgr_empty) \<and>
   sole_candidate 8 ex_collected ex_recSig_d \<and>
   fst (the (verify_and_process ex_env ex_collected [1 \<mapsto> ex_quorum] ex_mgr_empty)) = False \<and>
   reports_100 (new_events ex_mgr_empty
      (snd (the (verify_and_process ex_env ex_collected [1 \<mapsto> ex_quorum] ex_mgr_empty)))) = [8] \<and>
   (8, 8) \<notin> set (responses (new_events ex_mgr_empty
      (snd (the (verify_and_process ex_env ex_collected [1 \<mapsto> ex_quorum] ex_mgr_empty))))) \<and>
   GetRecoveredSigById 2
     (sigDb (snd (the (verify_and_process ex_env ex_collected [1 \<mapsto> ex_quorum] ex_mgr_empty)))) =
     Some ex_recSig_b \<and>
   GetRecoveredSigById 3
     (sigDb (snd (the (verify_and_process ex_env ex_collected [1 \<mapsto> ex_quorum] ex_mgr_empty)))) =
     Some ex_recSig_d"
proof -
  have bad: "\<exists>nv \<in> set ex_collected. fst nv = 8 \<and>
      (\<exists>rs \<in> set (snd nv). \<not> recsig_valid ex_env [1 \<mapsto> ex_quorum] rs)"
    using ex_round_valid(4) by (simp add: ex_collected_def)
  have good: "\<forall>nv \<in> set ex_collected. fst nv \<noteq> 8 \<longrightarrow>
      (\<forall>rs \<in> set (snd nv). recsig_valid ex_env [1 \<mapsto> ex_quorum] rs)"
    using ex_round_valid(1,3) by (simp add: ex_collected_def)
  have sole: "sole_candidate 8 ex_collected ex_recSig_b" "sole_candidate 8 ex_collected ex_recSig_d"
    by (simp_all add: sole_candidate_def ex_collected_def ex_recSig_b_def ex_recSig_d_def
        GetHash_def)
  from ProcessPendingRecoveredSigs_one_bad_origin [OF ex_collect bad good, where s = ex_mgr_empty]
  obtain s' where
    run: "verify_and_process ex_env ex_collected [1 \<mapsto> ex_quorum] ex_mgr_empty =
            Some (32 \<le> length ex_collected, s')"
    and rep: "reports_100 (new_events ex_mgr_empty s') =
            filter (\<lambda>n. n = 8 \<and> GetPeerRef ex_env n) (map fst ex_collected)"
    and nob: "\<forall>k. (8, k) \<notin> set (responses (new_events ex_mgr_empty s'))"
    and all: "\<forall>nv \<in> set ex_collected. fst nv \<noteq> 8 \<longrightarrow>
      (\<forall>rs \<in> set (snd nv).
         (\<exists>m. m \<noteq> 8 \<and> (m, GetHash rs) \<in> set (responses (new_events ex_mgr_empty s'))) \<and>
         (block_accepted ex_env rs \<and> recsig_unknown rs (sigDb ex_mgr_empty) \<and>
          sole_candidate 8 ex_collected rs \<longrightarrow>
            GetRecoveredSigById (id' rs) (sigDb s') = Some rs \<and>
            fst (HasRecoveredSigForHash (GetHash rs) (sigDb s')) \<and>
            (\<forall>l \<in> set (recoveredSigsListeners ex_mgr_empty).
               HandleNewRecoveredSig l rs \<in> set (new_events ex_mgr_empty s'))))"
    by (elim exE conjE)
  have len: "\<not> 32 \<le> length ex_collected" by (simp add: ex_collected_def)
  have r8: "reports_100 (new_events ex_mgr_empty s') = [8]"
    unfolding rep by (simp add: ex_collected_def ex_env_def)
  have inb: "(9, [ex_recSig_b, ex_recSig_d]) \<in> set ex_collected" by (simp add: ex_collected_def)
  have gb: "GetRecoveredSigById (id' ex_recSig_b) (sigDb s') = Some ex_recSig_b"
    using all [rule_format, OF inb, of ex_recSig_b] ex_round_blocks(1) ex_round_unknown(1) sole(1)
    by simp
  have gd: "GetRecoveredSigById (id' ex_recSig_d) (sigDb s') = Some ex_recSig_d"
    using all [rule_format, OF inb, of ex_recSig_d] ex_round_blocks(2) ex_round_unknown(3) sole(2)
    by simp
  have ids: "id' ex_recSig_b = 2" "id' ex_recSig_d = 3"
    by (simp_all add: ex_recSig_b_def ex_recSig_d_def)
  show ?thesis
    unfolding run
    using ex_collect ex_round_valid(4) ex_round_blocks(1,2) ex_round_unknown(1,3) sole len r8 nob
      gb gd
    by (simp add: ids)
qed

lemma ex_round_unknown_block_run:
  "verify_and_process ex_env ex_round_unknown_block [1 \<mapsto> ex_quorum] ex_mgr_empty =
     Some (False, ex_mgr_empty\<lparr>events :=
       [AddKnownTx 7 8, ReceivedResponse 7 8, LogPrintf (Log_block_does_not_exist 2),
        ForgetTxHash 7 8, Misbehaving 7 10 ''invalid recovered signature'',
        Misbehaving 8 100 ''invalid recSig from other node'']\<rparr>)"
  by (simp add: verify_and_process_def ex_round_unknown_block_def Let_def ex_env_def ex_quorum_def
      ex_recSig_c_def ex_recSig_forged_def PushMessage_def Verify_def message_fails_def
      BuildSignHash_def GetHash_def ex_bsh_def ProcessRecoveredSig_def reject_recsig_def
      mark_received_def emit_def ex_mgr_empty_def)

lemma ex_round_gone_peer_run:
  "reports_100 (new_events ex_mgr_empty
     (snd (the (verify_and_process ex_env ex_round_gone_peer [1 \<mapsto> ex_quorum] ex_mgr_empty)))) = []"
  by (simp add: verify_and_process_def ex_round_gone_peer_def Let_def ex_env_def ex_quorum_def
      ex_recSig_b_def ex_recSig_forged_def PushMessage_def Verify_def message_fails_def
      BuildSignHash_def GetHash_def ex_bsh_def ProcessRecoveredSig_new_events emit_def
      new_events_def ex_mgr_empty_def ProcessRecoveredSig_def ProcessRecoveredSig_accept_def
      write_and_publish_def mark_received_def HasRecoveredSigForHash_def HasRecoveredSigForId_def
      db_Exists_def ex_empty_db_def reports_100_def)

text \<open>
  The claim as stated has every valid candidate of the other origins that is not already
  known accepted, and the bad origin flagged as misbehaving. In \<open>ex_round_unknown_block\<close>
  the node 8 is the one bad origin; the candidate \<open>ex_recSig_c\<close> of the node 7 is valid and
  unknown to the empty store, yet no block of its message hash 7 is known:
  \<^verbatim>\<open>ProcessRecoveredSig\<close> rejects it and the store is empty after the round. In
  \<open>ex_round_gone_peer\<close> the one bad origin is the node -1; \<^verbatim>\<open>GetPeerRef\<close> does not know it
  and nothing is reported.
\<close>

theorem ProcessPendingRecoveredSigs_not_accepted_counterexample:
  "collect_quorums ex_env ex_round_unknown_block Map.empty =
     (ex_round_unknown_block, [1 \<mapsto> ex_quorum]) \<and>
   recsig_valid ex_env [1 \<mapsto> ex_quorum] ex_recSig_c \<and>
   \<not> recsig_valid ex_env [1 \<mapsto> ex_quorum] ex_recSig_forged \<and>
   recsig_unknown ex_recSig_c (sigDb ex_mgr_empty) \<and>
   verify_and_process ex_env ex_round_unknown_block [1 \<mapsto> ex_quorum] ex_mgr_empty =
     Some (False, ex_mgr_empty\<lparr>events :=
       [AddKnownTx 7 8, ReceivedResponse 7 8, LogPrintf (Log_block_does_not_exist 2),
        ForgetTxHash 7 8, Misbehaving 7 10 ''invalid recovered signature'',
        Misbehaving 8 100 ''invalid recSig from other node'']\<rparr>) \<and>
   db (sigDb (snd (the (verify_and_process ex_env ex_round_unknown_block [1 \<mapsto> ex_quorum]
        ex_mgr_empty)))) = [] \<and>
   GetRecoveredSigById (id' ex_recSig_c)
     (sigDb (snd (the (verify_and_process ex_env ex_round_unknown_block [1 \<mapsto> ex_quorum]
        ex_mgr_empty)))) = None \<and>
   GetPeerRef ex_env (- 1) = False \<and>
   reports_100 (new_events ex_mgr_empty
     (snd (the (verify_and_process ex_env ex_round_gone_peer [1 \<mapsto> ex_quorum] ex_mgr_empty)))) = []"
proof -
  have c: "collect_quorums ex_env ex_round_unknown_block Map.empty =
     (ex_round_unknown_block, [1 \<mapsto> ex_quorum])"
    by (simp add: ex_round_unknown_block_def ex_env_def ex_quorum_def ex_recSig_c_def
        ex_recSig_forged_def)
  have d: "db (sigDb ex_mgr_empty) = []" "GetRecoveredSigById i (sigDb ex_mgr_empty) = None" for i
    by (simp_all add: ex_mgr_empty_def ex_empty_db_def GetRecoveredSigById_def ReadRecoveredSig_def
        db_Read_recSig_def)
  have p: "GetPeerRef ex_env (- 1) = False" by (simp add: ex_env_def)
  show ?thesis
    using c ex_round_valid(2,4) ex_round_unknown(2) ex_round_gone_peer_run p d
    by (simp add: ex_round_unknown_block_run GetRecoveredSigById_def ReadRecoveredSig_def)
qed

section \<open>Properties of the DKG session manager\<close>

text \<open>
  Caching a contribution changes nothing of what later rounds of the loop find, so the
  loop can be described by the manager it starts from.
\<close>

lemma cache_filled_same:
  assumes "has_vvec m b p"
  shows "has_vvec (cache_filled now sk0 b p m) b q = has_vvec m b q"
    and "vvec_of (cache_filled now sk0 b p m) b q = vvec_of m b q"
    and "sk_of (cache_filled now sk0 b p m) sk0 b q = sk_of m sk0 b q"
  using assms
  by (cases "q = p"; cases "contributionsCache m (b, p)";
      auto simp: cache_filled_def has_vvec_def vvec_of_def sk_of_def split: option.splits)+

lemma valid_members_from_Nil [simp]: "valid_members_from vm i [] = []"
  by (simp add: valid_members_from_def)

lemma valid_members_from_Cons:
  "valid_members_from vm i (p # rest) =
     (if vm ! i then [(i, p)] else []) @ valid_members_from vm (Suc i) rest"
proof -
  have "[i ..< i + length (p # rest)] = i # [Suc i ..< Suc i + length rest]"
    by (subst upt_rec) simp
  then show ?thesis unfolding valid_members_from_def by simp
qed

lemma gvc_loop_step:
  assumes "i < length validMembers"
  shows "GetVerifiedContributions_loop b validMembers now sk0 i (p # rest) (idxs, vvecs, sks, m) =
     (if \<not> validMembers ! i then
        GetVerifiedContributions_loop b validMembers now sk0 (Suc i) rest (idxs, vvecs, sks, m)
      else if \<not> has_vvec m b p then (GVC_false, (idxs, vvecs, sks, m))
      else GetVerifiedContributions_loop b validMembers now sk0 (Suc i) rest
             (idxs @ [of_nat i], vvecs @ [vvec_of m b p], sks @ [sk_of m sk0 b p],
              cache_filled now sk0 b p m))"
  using assms
  by (auto simp: has_vvec_def vvec_of_def sk_of_def cache_filled_def Let_def split: option.splits)

lemma gvc_loop_spec:
  assumes "i + length members \<le> length validMembers"
      and "GetVerifiedContributions_loop b validMembers now sk0 i members (idxs, vvecs, sks, m) =
             (st, idxs', vvecs', sks', m')"
  shows "st \<noteq> GVC_undefined \<and>
         (st = GVC_false \<longleftrightarrow>
            (\<exists>jp \<in> set (valid_members_from validMembers i members). \<not> has_vvec m b (snd jp))) \<and>
         (st = GVC_true \<longrightarrow>
            idxs' = idxs @ map (\<lambda>jp. of_nat (fst jp)) (valid_members_from validMembers i members) \<and>
            vvecs' = vvecs @ map (\<lambda>jp. vvec_of m b (snd jp)) (valid_members_from validMembers i members) \<and>
            sks' = sks @ map (\<lambda>jp. sk_of m sk0 b (snd jp)) (valid_members_from validMembers i members))"
  using assms
proof (induction members arbitrary: i idxs vvecs sks m)
  case Nil
  then show ?case by auto
next
  case (Cons p rest)
  have i: "i < length validMembers" and n: "Suc i + length rest \<le> length validMembers"
    using Cons.prems(1) by simp_all
  note step = gvc_loop_step [OF i, of b now sk0 p rest idxs vvecs sks m]
  show ?case
  proof (cases "validMembers ! i")
    case False
    then have "GetVerifiedContributions_loop b validMembers now sk0 (Suc i) rest (idxs, vvecs, sks, m) =
        (st, idxs', vvecs', sks', m')"
      using step Cons.prems(2) by simp
    from Cons.IH [OF n this] False show ?thesis
      by (simp add: valid_members_from_Cons)
  next
    case True
    show ?thesis
    proof (cases "has_vvec m b p")
      case False
      then have "st = GVC_false" using step Cons.prems(2) True by simp
      then show ?thesis using True False by (auto simp: valid_members_from_Cons)
    next
      case hv: True
      then have "GetVerifiedContributions_loop b validMembers now sk0 (Suc i) rest
             (idxs @ [of_nat i], vvecs @ [vvec_of m b p], sks @ [sk_of m sk0 b p],
              cache_filled now sk0 b p m) = (st, idxs', vvecs', sks', m')"
        using step Cons.prems(2) True by simp
      from Cons.IH [OF n this] True hv show ?thesis
        by (simp add: valid_members_from_Cons cache_filled_same [OF hv])
    qed
  qed
qed

lemma valid_members_from_fst:
  "map fst (valid_members_from vm i members) = filter (\<lambda>j. vm ! j) [i ..< i + length members]"
proof -
  have "map fst (filter (\<lambda>jp. vm ! fst jp) (zip js members)) = filter (\<lambda>j. vm ! j) js"
    if "length js = length members" for js :: "nat list"
    using that
    by (induction js members rule: list_induct2) auto
  then show ?thesis by (simp add: valid_members_from_def)
qed

lemma valid_members_from_bound:
  "jp \<in> set (valid_members_from vm i members) \<Longrightarrow> fst jp < i + length members"
proof -
  assume "jp \<in> set (valid_members_from vm i members)"
  then have "(fst jp, snd jp) \<in> set (zip [i ..< i + length members] members)"
    by (simp add: valid_members_from_def)
  then have "fst jp \<in> set [i ..< i + length members]" by (rule set_zip_leftD)
  then show ?thesis by simp
qed

text \<open>
  Claim C9, as amended. For every quorum base block, member list and valid-member bitset
  (at least as long as the member list, of at most \<open>2^16\<close> members),
  \<^verbatim>\<open>GetVerifiedContributions\<close> returns \<^verbatim>\<open>false\<close> exactly when some member marked valid has
  no verification vector, neither in the contributions cache nor in the store. A missing
  secret-key share does not make it fail: the share returned for that member is the
  default key. When it returns \<^verbatim>\<open>true\<close>, the three vectors are parallel and cover exactly
  the members marked valid, in order: their indexes, their verification vectors and their
  shares.
\<close>

theorem GetVerifiedContributions_valid_members:
  assumes "length members \<le> length validMembers" and "length members \<le> 2 ^ 16"
      and "GetVerifiedContributions members b validMembers now sk0 m = (st, idxs, vvecs, sks, m')"
  shows "st \<noteq> GVC_undefined \<and>
         (st = GVC_false \<longleftrightarrow>
            (\<exists>jp \<in> set (valid_members validMembers members). \<not> has_vvec m b (snd jp))) \<and>
         (st = GVC_true \<longrightarrow>
            map unat idxs = filter (\<lambda>j. validMembers ! j) [0 ..< length members] \<and>
            map unat idxs = map fst (valid_members validMembers members) \<and>
            vvecs = map (\<lambda>jp. vvec_of m b (snd jp)) (valid_members validMembers members) \<and>
            sks = map (\<lambda>jp. sk_of m sk0 b (snd jp)) (valid_members validMembers members))"
proof -
  have le: "0 + length members \<le> length validMembers" using assms(1) by simp
  have run: "GetVerifiedContributions_loop b validMembers now sk0 0 members ([], [], [], m) =
      (st, idxs, vvecs, sks, m')"
    using assms(3) by (simp add: GetVerifiedContributions_def)
  note sp = gvc_loop_spec [OF le run, folded valid_members_def]
  have small: "unat (of_nat (fst jp) :: 16 word) = fst jp"
    if "jp \<in> set (valid_members validMembers members)" for jp
  proof -
    have "fst jp < 2 ^ 16"
      using valid_members_from_bound [of jp validMembers 0 members] that assms(2)
      by (simp add: valid_members_def)
    then show ?thesis by (simp add: unat_of_nat)
  qed
  have idx: "map unat (map (\<lambda>jp. of_nat (fst jp) :: 16 word) (valid_members validMembers members)) =
      map fst (valid_members validMembers members)"
    using small by (simp add: map_idI)
  have fstv: "map fst (valid_members validMembers members) =
      filter (\<lambda>j. validMembers ! j) [0 ..< length members]"
    using valid_members_from_fst [of validMembers 0 members] by (simp add: valid_members_def)
  show ?thesis using sp idx fstv by auto
qed

text \<open>
  The claim as stated has the function fail when a share is missing. It does not: for
  one valid member whose verification vector is stored and whose share is not, it returns
  \<^verbatim>\<open>true\<close> with the default share (0 here).
\<close>

lemma ex_dkg_db:
  "dkg_db ex_dkg = [K_qdkg_V 1 11 \<mapsto> V_vvec [5, 6]]"
  "contributionsCache ex_dkg = Map.empty"
  "dkg_db ex_dkg_full = [K_qdkg_V 1 11 \<mapsto> V_vvec [5, 6], K_qdkg_S 1 11 \<mapsto> V_skContribution 8]"
  "contributionsCache ex_dkg_full = Map.empty"
  by (simp_all add: ex_dkg_def ex_dkg_full_def WriteVerifiedVvecContribution_def
      WriteVerifiedSkContribution_def)

theorem GetVerifiedContributions_missing_share_counterexample:
  "Read_vvec (dkg_db ex_dkg) (K_qdkg_V 1 11) = Some [5, 6] \<and>
   Read_skContribution (dkg_db ex_dkg) (K_qdkg_S 1 11) = None \<and>
   contributionsCache ex_dkg (1, 11) = None \<and>
   fst (GetVerifiedContributions [11] 1 [True] 1000 0 ex_dkg) = GVC_true \<and>
   fst (snd (GetVerifiedContributions [11] 1 [True] 1000 0 ex_dkg)) = [0] \<and>
   fst (snd (snd (GetVerifiedContributions [11] 1 [True] 1000 0 ex_dkg))) = [[5, 6]] \<and>
   fst (snd (snd (snd (GetVerifiedContributions [11] 1 [True] 1000 0 ex_dkg)))) = [0]"
  by (simp add: GetVerifiedContributions_def ex_dkg_db Read_vvec_def Read_skContribution_def)

theorem GetVerifiedContributions_valid_members_witness:
  "length [11, 12 :: uint256] \<le> length [True, False] \<and> length [11, 12 :: uint256] \<le> 2 ^ 16 \<and>
   fst (GetVerifiedContributions [11, 12] 1 [True, False] 1000 0 ex_dkg_full) = GVC_true \<and>
   map unat (fst (snd (GetVerifiedContributions [11, 12] 1 [True, False] 1000 0 ex_dkg_full))) = [0] \<and>
   fst (snd (snd (GetVerifiedContributions [11, 12] 1 [True, False] 1000 0 ex_dkg_full))) = [[5, 6]] \<and>
   fst (snd (snd (snd (GetVerifiedContributions [11, 12] 1 [True, False] 1000 0 ex_dkg_full)))) = [8] \<and>
   fst (GetVerifiedContributions [11, 12] 1 [True, True] 1000 0 ex_dkg_full) = GVC_false"
proof -
  have l1: "length [11, 12 :: uint256] \<le> length [True, False]" by simp
  have l1': "length [11, 12 :: uint256] \<le> length [True, True]" by simp
  have l2: "length [11, 12 :: uint256] \<le> 2 ^ 16" by simp
  obtain st idxs vvecs sks m' where
    r: "GetVerifiedContributions [11, 12] 1 [True, False] 1000 0 ex_dkg_full = (st, idxs, vvecs, sks, m')"
    by (metis prod_cases5)
  obtain st2 idxs2 vvecs2 sks2 m2 where
    r2: "GetVerifiedContributions [11, 12] 1 [True, True] 1000 0 ex_dkg_full = (st2, idxs2, vvecs2, sks2, m2)"
    by (metis prod_cases5)
  have vm: "valid_members [True, False] [11, 12] = [(0, 11)]"
    "valid_members [True, True] [11, 12] = [(0, 11), (1, 12)]"
    by (simp_all add: valid_members_def valid_members_from_Cons)
  have hv: "has_vvec ex_dkg_full 1 11" "\<not> has_vvec ex_dkg_full 1 12"
    "vvec_of ex_dkg_full 1 11 = [5, 6]" "sk_of ex_dkg_full 0 1 11 = 8"
    by (simp_all add: has_vvec_def vvec_of_def sk_of_def ex_dkg_db Read_vvec_def Read_skContribution_def)
  have a: "st \<noteq> GVC_undefined \<and> st \<noteq> GVC_false \<and>
      (st = GVC_true \<longrightarrow> map unat idxs = [0] \<and> vvecs = [[5, 6]] \<and> sks = [8])"
    using GetVerifiedContributions_valid_members [OF l1 l2 r] by (simp add: vm hv)
  then have t: "st = GVC_true" by (cases st) simp_all
  have b: "st2 = GVC_false"
    using GetVerifiedContributions_valid_members [OF l1' l2 r2] by (simp add: vm hv)
  show ?thesis using a t b by (simp add: r r2)
qed

end
